theory Spec2Isabelle
  imports Main "HOL-Library.Word" "HOL-Library.Monad_Syntax"
begin

section \<open>The container of set.c and set.h\<close>

text \<open>
  The container is one heap block: a header with the two counters, followed by the
  element storage. The model keeps the block as a record; the storage is the list of
  its bytes. \<open>size_t\<close> is the 64-bit unsigned type (LP64), so every count and every
  byte offset is a \<open>64 word\<close> and the arithmetic of the code wraps as written.

  An access outside the block (a \<open>memmove\<close> or a store past the allocated bytes, a
  header that no longer fits the block) is undefined behaviour in C. The model makes it
  a value: such a call returns \<open>None\<close>. The allocator is taken to succeed (the code
  dereferences its result at once); the bytes a new block holds beyond the copied ones
  are not determined by the code and are a parameter \<open>fresh\<close> of every function that
  allocates.
\<close>

type_synonym byte = "8 word"
type_synonym set_size_t = "64 word"
type_synonym set_type_t = "64 word"

text \<open>\<open>set_header\<close>; the field \<open>size\<close> is \<open>size_h\<close> here.\<close>

record set_header =
  size_h :: set_size_t
  capacity :: set_size_t
  data :: "byte list"

text \<open>\<open>sizeof(set_header)\<close>: two \<open>size_t\<close> fields, the flexible array adds nothing.\<close>

definition sizeof_set_header :: "64 word" where
  "sizeof_set_header = 16"

subsection \<open>Memory primitives\<close>

text \<open>
  \<open>realloc\<close> to \<open>n\<close> storage bytes: the old bytes up to the smaller of the two
  lengths, then whatever the allocator hands out.
\<close>

definition realloc_bytes :: "(nat \<Rightarrow> byte) \<Rightarrow> nat \<Rightarrow> byte list \<Rightarrow> byte list" where
  "realloc_bytes fresh n d = take n d @ map fresh [length d..<n]"

text \<open>An allocator whose new bytes are all zero, for concrete runs.\<close>

definition zero_bytes :: "nat \<Rightarrow> byte" where
  "zero_bytes i = 0"

text \<open>
  \<open>memmove(&d[dst], &d[src], n)\<close> inside the storage \<open>d\<close>: the \<open>n\<close> bytes from
  \<open>src\<close> are read first and then written from \<open>dst\<close>.
\<close>

definition memmove :: "byte list \<Rightarrow> nat \<Rightarrow> nat \<Rightarrow> nat \<Rightarrow> byte list option" where
  "memmove d dst src n =
     (if src + n \<le> length d \<and> dst + n \<le> length d
      then Some (take dst d @ take n (drop src d) @ drop (dst + n) d)
      else None)"

text \<open>
  The store \<open>*dst = value\<close> a caller makes through the pointer an operation returned:
  \<open>off\<close> is the byte offset of the pointer in the storage, \<open>v\<close> the bytes of the value.
\<close>

definition write_slot :: "set_header \<Rightarrow> 64 word \<Rightarrow> byte list \<Rightarrow> set_header option" where
  "write_slot h off v =
     (if unat off + length v \<le> length (data h)
      then Some (h\<lparr>data := take (unat off) (data h) @ v @ drop (unat off + length v) (data h)\<rparr>)
      else None)"

subsection \<open>The operations of set.c\<close>

definition set_create :: set_header where
  "set_create = \<lparr>size_h = 0, capacity = 0, data = []\<rparr>"

definition set_size :: "set_header \<Rightarrow> set_size_t" where
  "set_size h = size_h h"

definition set_capacity :: "set_header \<Rightarrow> set_size_t" where
  "set_capacity h = capacity h"

definition set_realloc :: "(nat \<Rightarrow> byte) \<Rightarrow> set_header \<Rightarrow> set_type_t \<Rightarrow> set_header option" where
  "set_realloc fresh h type_size =
     (let new_capacity = (if capacity h = 0 then 1 else capacity h * 2);
          bytes = sizeof_set_header + new_capacity * type_size
      in if bytes < sizeof_set_header then None
         else Some (h\<lparr>capacity := new_capacity,
                       data := realloc_bytes fresh (unat (bytes - sizeof_set_header)) (data h)\<rparr>))"

definition set_has_space :: "set_header \<Rightarrow> bool" where
  "set_has_space h \<longleftrightarrow> capacity h - size_h h > 0"

text \<open>
  The functions \<open>_set_add_dst\<close>, \<open>_set_insert_dst\<close>, \<open>_set_erase\<close>, \<open>_set_remove\<close>,
  \<open>_set_reserve\<close> and \<open>_set_copy\<close> lose their leading underscore. Where the code
  returns a pointer into the storage, the model returns its byte offset.
\<close>

definition set_add_dst ::
  "(nat \<Rightarrow> byte) \<Rightarrow> set_header \<Rightarrow> set_type_t \<Rightarrow> (64 word \<times> set_header) option" where
  "set_add_dst fresh h0 type_size =
     do {
       h \<leftarrow> (if \<not> set_has_space h0 then set_realloc fresh h0 type_size else Some h0);
       Some (type_size * size_h h, h\<lparr>size_h := size_h h + 1\<rparr>)
     }"

definition set_insert_dst ::
  "(nat \<Rightarrow> byte) \<Rightarrow> set_header \<Rightarrow> set_type_t \<Rightarrow> set_size_t \<Rightarrow> (64 word \<times> set_header) option" where
  "set_insert_dst fresh h0 type_size pos =
     do {
       let new_length = size_h h0 + 1;
       h \<leftarrow> (if \<not> set_has_space h0 then set_realloc fresh h0 type_size else Some h0);
       d \<leftarrow> memmove (data h) (unat ((pos + 1) * type_size)) (unat (pos * type_size))
              (unat ((size_h h - pos) * type_size));
       Some (pos * type_size, h\<lparr>data := d, size_h := new_length\<rparr>)
     }"

definition set_erase ::
  "set_header \<Rightarrow> set_type_t \<Rightarrow> set_size_t \<Rightarrow> set_size_t \<Rightarrow> set_header option" where
  "set_erase h type_size pos len =
     do {
       d \<leftarrow> memmove (data h) (unat (pos * type_size)) (unat ((pos + len) * type_size))
              (unat ((size_h h - pos - len) * type_size));
       Some (h\<lparr>data := d, size_h := size_h h - len\<rparr>)
     }"

definition set_remove :: "set_header \<Rightarrow> set_type_t \<Rightarrow> set_size_t \<Rightarrow> set_header option" where
  "set_remove h type_size pos = set_erase h type_size pos 1"

definition set_pop :: "set_header \<Rightarrow> set_header" where
  "set_pop h = h\<lparr>size_h := size_h h - 1\<rparr>"

definition set_reserve ::
  "(nat \<Rightarrow> byte) \<Rightarrow> set_header \<Rightarrow> set_type_t \<Rightarrow> set_size_t \<Rightarrow> set_header option" where
  "set_reserve fresh h type_size cap =
     (if capacity h \<ge> cap then Some h
      else let bytes = sizeof_set_header + cap * type_size
           in if bytes < sizeof_set_header then None
              else Some (h\<lparr>capacity := cap,
                            data := realloc_bytes fresh (unat (bytes - sizeof_set_header)) (data h)\<rparr>))"

text \<open>
  \<open>_set_copy\<close>: \<open>memcpy\<close> of the header and the first \<open>size\<close> slots into a new block,
  whose capacity is then set to its size.
\<close>

definition set_copy :: "set_header \<Rightarrow> set_type_t \<Rightarrow> set_header option" where
  "set_copy h type_size =
     (let alloc_size = sizeof_set_header + size_h h * type_size
      in if alloc_size < sizeof_set_header
            \<or> length (data h) < unat (alloc_size - sizeof_set_header) then None
         else Some \<lparr>size_h = size_h h, capacity = size_h h,
                    data = take (unat (alloc_size - sizeof_set_header)) (data h)\<rparr>)"

subsection \<open>Reading a container\<close>

text \<open>Slot \<open>i\<close> of a storage whose elements are \<open>k\<close> bytes wide, and the live elements.\<close>

definition slot :: "nat \<Rightarrow> byte list \<Rightarrow> nat \<Rightarrow> byte list" where
  "slot k d i = take k (drop (i * k) d)"

definition elements :: "set_type_t \<Rightarrow> set_header \<Rightarrow> byte list list" where
  "elements type_size h = map (slot (unat type_size) (data h)) [0..<unat (size_h h)]"

text \<open>
  The invariants of the data model: the size is within the capacity, the storage has
  \<open>capacity * type_size\<close> bytes, and the block (header and storage) is one that
  \<open>size_t\<close> can measure.
\<close>

definition set_inv :: "set_type_t \<Rightarrow> set_header \<Rightarrow> bool" where
  "set_inv type_size h \<longleftrightarrow>
     size_h h \<le> capacity h \<and>
     length (data h) = unat (capacity h) * unat type_size \<and>
     16 + unat (capacity h) * unat type_size < 2 ^ 64"

text \<open>
  A request for \<open>n\<close> slots is one \<open>size_t\<close> can express: neither the slot
  count nor the byte count of the block wraps. Growth is needed when no slot is free;
  it then asks for \<open>max(1, capacity * 2)\<close> slots.
\<close>

definition request_fits :: "set_type_t \<Rightarrow> nat \<Rightarrow> bool" where
  "request_fits type_size n \<longleftrightarrow> n < 2 ^ 64 \<and> 16 + n * unat type_size < 2 ^ 64"

definition grow_fits :: "set_type_t \<Rightarrow> set_header \<Rightarrow> bool" where
  "grow_fits type_size h \<longleftrightarrow>
     set_has_space h \<or> request_fits type_size (max 1 (2 * unat (capacity h)))"

subsection \<open>Runs of operations\<close>

text \<open>\<open>n\<close> calls of \<open>set_realloc\<close> in a row, each on the block the last one returned.\<close>

fun set_realloc_times ::
  "(nat \<Rightarrow> byte) \<Rightarrow> set_type_t \<Rightarrow> nat \<Rightarrow> set_header \<Rightarrow> set_header option" where
  "set_realloc_times fresh type_size 0 h = Some h"
| "set_realloc_times fresh type_size (Suc n) h =
     do { h' \<leftarrow> set_realloc fresh h type_size; set_realloc_times fresh type_size n h' }"

text \<open>
  A run of appends, \<open>*set_add_dst(&st) = v\<close> for each value in turn. Every step comes
  with the bytes its allocation would hand out. The result lists the offsets the calls
  returned, in order, and the final block.
\<close>

fun append_all ::
  "set_type_t \<Rightarrow> ((nat \<Rightarrow> byte) \<times> byte list) list \<Rightarrow> set_header
     \<Rightarrow> (64 word list \<times> set_header) option" where
  "append_all type_size [] h = Some ([], h)"
| "append_all type_size ((fresh, v) # xs) h =
     do {
       (off, h1) \<leftarrow> set_add_dst fresh h type_size;
       h2 \<leftarrow> write_slot h1 off v;
       (offs, h3) \<leftarrow> append_all type_size xs h2;
       Some (off # offs, h3)
     }"

subsection \<open>The duplicate-free add of set.h\<close>

text \<open>
  \<open>set_contains\<close> is declared in set.h as a function of the handle and one
  \<open>unsigned char\<close>; set.c gives its body as a macro. The loop runs \<open>i\<close> from 0 while
  \<open>i != size\<close> and compares \<open>(&h->data)[i]\<close> with the value. The model reads this as
  byte \<open>i\<close> of the storage (the storage is an array of \<open>unsigned char\<close> and the value
  compared is one \<open>unsigned char\<close>). A read past the storage has no result, nor has a
  step of the \<open>int\<close> counter past \<open>INT_MAX\<close>.
\<close>

fun set_contains_scan :: "byte list \<Rightarrow> byte \<Rightarrow> nat list \<Rightarrow> bool option" where
  "set_contains_scan d v [] = Some False"
| "set_contains_scan d v (i # is) =
     (if i < length d \<and> i < 2 ^ 31
      then (if d ! i = v then Some True else set_contains_scan d v is)
      else None)"

definition set_contains :: "set_header \<Rightarrow> byte \<Rightarrow> bool option" where
  "set_contains h v = set_contains_scan (data h) v [0..<unat (set_size h)]"

text \<open>
  The bytes of an integer value in an object of \<open>k\<close> bytes, least significant first
  (the layout of x86-64).
\<close>

fun object_bytes :: "nat \<Rightarrow> nat \<Rightarrow> byte list" where
  "object_bytes 0 x = []"
| "object_bytes (Suc k) x = of_nat (x mod 256) # object_bytes k (x div 256)"

text \<open>
  The macro \<open>set_add(set_addr, value)\<close> for an integer element type of \<open>type_size\<close>
  bytes: the check receives \<open>(unsigned char)value\<close>, the store writes the whole value.
  The macro calls whatever function \<open>set_contains\<close> the program is linked with, so the
  check is a parameter of \<open>set_add_with\<close>; \<open>set_add\<close> is the macro with the check of
  set.c.
\<close>

definition set_add_with ::
  "(set_header \<Rightarrow> byte \<Rightarrow> bool option) \<Rightarrow> (nat \<Rightarrow> byte) \<Rightarrow> set_header \<Rightarrow> set_type_t
     \<Rightarrow> nat \<Rightarrow> set_header option" where
  "set_add_with contains fresh h type_size x =
     do {
       found \<leftarrow> contains h (of_nat x);
       if \<not> found
       then do {
         (off, h1) \<leftarrow> set_add_dst fresh h type_size;
         write_slot h1 off (object_bytes (unat type_size) x)
       }
       else Some h
     }"

definition set_add ::
  "(nat \<Rightarrow> byte) \<Rightarrow> set_header \<Rightarrow> set_type_t \<Rightarrow> nat \<Rightarrow> set_header option" where
  "set_add = set_add_with set_contains"

subsection \<open>Containers in a heap\<close>

text \<open>
  Where two containers are live at once, each is a block of the heap and a handle is the
  address of its block. \<open>malloc\<close> and \<open>realloc\<close> choose the address of a new block; the
  choice \<open>q\<close> is a parameter. An allocator never hands out a live block, except that
  \<open>realloc\<close> may return the block it was given: for any other \<open>q\<close> the functions below
  have no result.
\<close>

type_synonym addr = nat
type_synonym heap = "addr \<Rightarrow> set_header option"

definition set_free :: "heap \<Rightarrow> addr \<Rightarrow> heap" where
  "set_free H st = H(st := None)"

definition set_copy_at :: "addr \<Rightarrow> heap \<Rightarrow> addr \<Rightarrow> set_type_t \<Rightarrow> (heap \<times> addr) option" where
  "set_copy_at q H st type_size =
     (case H st of None \<Rightarrow> None
      | Some h \<Rightarrow>
          (case set_copy h type_size of None \<Rightarrow> None
           | Some c \<Rightarrow> if H q \<noteq> None then None else Some (H(q \<mapsto> c), q)))"

text \<open>The calls that change a container, and the store through a returned pointer.\<close>

datatype mutation =
    Add_dst set_type_t
  | Insert_dst set_type_t set_size_t
  | Erase set_type_t set_size_t set_size_t
  | Remove set_type_t set_size_t
  | Pop
  | Reserve set_type_t set_size_t
  | Store "64 word" "byte list"

fun mutate_block :: "(nat \<Rightarrow> byte) \<Rightarrow> mutation \<Rightarrow> set_header \<Rightarrow> set_header option" where
  "mutate_block fresh (Add_dst ts) h = map_option snd (set_add_dst fresh h ts)"
| "mutate_block fresh (Insert_dst ts pos) h = map_option snd (set_insert_dst fresh h ts pos)"
| "mutate_block fresh (Erase ts pos len) h = set_erase h ts pos len"
| "mutate_block fresh (Remove ts pos) h = set_remove h ts pos"
| "mutate_block fresh Pop h = Some (set_pop h)"
| "mutate_block fresh (Reserve ts cap) h = set_reserve fresh h ts cap"
| "mutate_block fresh (Store off v) h = write_slot h off v"

text \<open>The calls that pass the block to \<open>realloc\<close>.\<close>

fun reallocates :: "mutation \<Rightarrow> set_header \<Rightarrow> bool" where
  "reallocates (Add_dst ts) h = (\<not> set_has_space h)"
| "reallocates (Insert_dst ts pos) h = (\<not> set_has_space h)"
| "reallocates (Reserve ts cap) h = (\<not> capacity h \<ge> cap)"
| "reallocates m h = False"

text \<open>
  One mutation of the container at handle \<open>st\<close>. A reallocated block lives at \<open>q\<close>
  afterwards and the old address is free; the result carries the handle to use next.
\<close>

definition mutate ::
  "(nat \<Rightarrow> byte) \<Rightarrow> addr \<Rightarrow> mutation \<Rightarrow> heap \<Rightarrow> addr \<Rightarrow> (heap \<times> addr) option" where
  "mutate fresh q m H st =
     (case H st of None \<Rightarrow> None
      | Some h \<Rightarrow>
          (case mutate_block fresh m h of None \<Rightarrow> None
           | Some h' \<Rightarrow>
               if reallocates m h
               then (if q \<noteq> st \<and> H q \<noteq> None then None
                     else Some ((H(st := None))(q \<mapsto> h'), q))
               else Some (H(st \<mapsto> h'), st)))"

fun mutate_all ::
  "((nat \<Rightarrow> byte) \<times> addr \<times> mutation) list \<Rightarrow> heap \<Rightarrow> addr \<Rightarrow> (heap \<times> addr) option" where
  "mutate_all [] H st = Some (H, st)"
| "mutate_all ((fresh, q, m) # ms) H st =
     (case mutate fresh q m H st of None \<Rightarrow> None
      | Some (H', st') \<Rightarrow> mutate_all ms H' st')"

section \<open>Slots of a byte list\<close>

lemma slot_append1: "(i + 1) * k \<le> length A \<Longrightarrow> slot k (A @ B) i = slot k A i"
  by (simp add: slot_def)

lemma slot_append2: "length A = j * k \<Longrightarrow> slot k (A @ B) (j + i) = slot k B i"
  by (simp add: slot_def add_mult_distrib)

lemma slot_take: "(i + 1) * k \<le> m \<Longrightarrow> slot k (take m d) i = slot k d i"
  by (simp add: slot_def drop_take min_def)

lemma slot_drop: "slot k (drop (j * k) d) i = slot k d (j + i)"
  by (simp add: slot_def add_mult_distrib add.commute)

lemma slot_exact: "length v = k \<Longrightarrow> slot k (v @ B) 0 = v"
  by (simp add: slot_def)

lemma mult_mono_k: "(i::nat) < p \<Longrightarrow> (i + 1) * k \<le> p * k"
  using mult_le_mono1 [of "Suc i" p k] by simp

lemma slots_after_insert:
  assumes v: "length v = k" and p: "p \<le> n" and len: "n * k \<le> length d"
  shows "map (slot k (take (p * k) d @ v @ take ((n - p) * k) (drop (p * k) d) @ r)) [0..<n + 1]
         = take p (map (slot k d) [0..<n]) @ [v] @ drop p (map (slot k d) [0..<n])"
    (is "map (slot k ?d') _ = ?R")
proof (rule nth_equalityI)
  show "length (map (slot k ?d') [0..<n + 1]) = length ?R" using p by simp
next
  fix i assume "i < length (map (slot k ?d') [0..<n + 1])"
  then have i: "i < n + 1" by simp
  have lenA: "length (take (p * k) d) = p * k"
    using le_trans [OF mult_le_mono1 [OF p] len] by simp
  consider "i < p" | "i = p" | "p < i" by linarith
  then have "slot k ?d' i = ?R ! i"
  proof cases
    case 1
    then have "(i + 1) * k \<le> p * k" by (rule mult_mono_k)
    then have "slot k ?d' i = slot k d i"
      using lenA by (simp add: slot_append1 slot_take)
    then show ?thesis using 1 p by (simp add: nth_append)
  next
    case 2
    have "slot k ?d' (p + 0) = slot k (v @ take ((n - p) * k) (drop (p * k) d) @ r) 0"
      using lenA by (rule slot_append2)
    then show ?thesis using 2 p v by (simp add: slot_exact nth_append)
  next
    case 3
    then obtain j where j: "i = p + (1 + j)" "j < n - p" using i
      by (metis add.commute less_diff_conv add_Suc_right Suc_eq_plus1 Suc_less_eq less_natE plus_1_eq_Suc)
    have lenC: "length (take ((n - p) * k) (drop (p * k) d)) = (n - p) * k"
      using diff_le_mono [OF len, of "p * k"] by (simp add: diff_mult_distrib)
    have "slot k ?d' (p + (1 + j)) = slot k (v @ take ((n - p) * k) (drop (p * k) d) @ r) (1 + j)"
      using lenA by (rule slot_append2)
    also have "\<dots> = slot k (take ((n - p) * k) (drop (p * k) d) @ r) j"
      using v by (intro slot_append2) simp
    also have "\<dots> = slot k (take ((n - p) * k) (drop (p * k) d)) j"
      by (rule slot_append1) (simp only: lenC mult_mono_k [OF j(2)])
    also have "\<dots> = slot k (drop (p * k) d) j"
      by (rule slot_take) (rule mult_mono_k [OF j(2)])
    also have "\<dots> = slot k d (p + j)" by (rule slot_drop)
    finally show ?thesis using j p by (simp add: nth_append)
  qed
  then show "map (slot k ?d') [0..<n + 1] ! i = ?R ! i"
    using i by (simp del: upt_Suc add: nth_map_upt)
qed

lemma slots_after_erase:
  assumes pl: "p + l \<le> n" and len: "n * k \<le> length d"
  shows "map (slot k (take (p * k) d @ take ((n - p - l) * k) (drop ((p + l) * k) d) @ r)) [0..<n - l]
         = take p (map (slot k d) [0..<n]) @ drop (p + l) (map (slot k d) [0..<n])"
    (is "map (slot k ?d') _ = ?R")
proof (rule nth_equalityI)
  show "length (map (slot k ?d') [0..<n - l]) = length ?R" using pl by simp
next
  fix i assume "i < length (map (slot k ?d') [0..<n - l])"
  then have i: "i < n - l" by simp
  have p: "p \<le> n" using pl by simp
  have lenA: "length (take (p * k) d) = p * k"
    using le_trans [OF mult_le_mono1 [OF p] len] by simp
  have lenC: "length (take ((n - p - l) * k) (drop ((p + l) * k) d)) = (n - p - l) * k"
    using diff_le_mono [OF len, of "(p + l) * k"] by (simp add: diff_mult_distrib)
  consider "i < p" | "p \<le> i" by linarith
  then have "slot k ?d' i = ?R ! i"
  proof cases
    case 1
    then have "(i + 1) * k \<le> p * k" by (rule mult_mono_k)
    then have "slot k ?d' i = slot k d i"
      using lenA by (simp add: slot_append1 slot_take)
    then show ?thesis using 1 pl i by (simp add: nth_append)
  next
    case 2
    then obtain j where j: "i = p + j" "j < n - p - l" using i
      by (metis le_Suc_ex less_diff_conv add.commute add.assoc)
    have "slot k ?d' (p + j) = slot k (take ((n - p - l) * k) (drop ((p + l) * k) d) @ r) j"
      using lenA by (rule slot_append2)
    also have "\<dots> = slot k (take ((n - p - l) * k) (drop ((p + l) * k) d)) j"
      by (rule slot_append1) (simp only: lenC mult_mono_k [OF j(2)])
    also have "\<dots> = slot k (drop ((p + l) * k) d) j"
      by (rule slot_take) (rule mult_mono_k [OF j(2)])
    also have "\<dots> = slot k d (p + l + j)" by (rule slot_drop)
    finally show ?thesis using j pl by (simp add: nth_append add.assoc)
  qed
  then show "map (slot k ?d') [0..<n - l] ! i = ?R ! i"
    using i by (simp add: nth_map_upt)
qed

lemma elements_prefix:
  assumes "take m d' = d" and "unat (size_h h) * unat ts \<le> m" and "data h = d"
  shows "map (slot (unat ts) d') [0..<unat (size_h h)] = elements ts h"
proof -
  have "slot (unat ts) d' i = slot (unat ts) d i" if "i < unat (size_h h)" for i
  proof -
    have "(i + 1) * unat ts \<le> m"
      using mult_mono_k [OF that, of "unat ts"] assms(2) by simp
    then show ?thesis using assms(1) slot_take by metis
  qed
  then show ?thesis using assms(3) by (simp add: elements_def)
qed

lemma size_bytes_le:
  assumes "set_inv ts h"
  shows "unat (size_h h) * unat ts \<le> length (data h)"
  using assms by (simp add: set_inv_def word_le_nat_alt mult_le_mono1)

section \<open>Arithmetic of \<open>size_t\<close> without wrap-around\<close>

lemma unat_mult_fits: "unat a * unat b < 2 ^ 64 \<Longrightarrow> unat (a * b :: 64 word) = unat a * unat b"
  by (simp add: unat_word_ariths)

lemma unat_add_fits: "unat a + unat b < 2 ^ 64 \<Longrightarrow> unat (a + b :: 64 word) = unat a + unat b"
  by (simp add: unat_word_ariths)

lemma unat_mult_le:
  assumes "unat a \<le> c" and "16 + c * unat ts < 2 ^ 64"
  shows "unat (a * ts :: 64 word) = unat a * unat ts"
proof -
  have "unat a * unat ts \<le> c * unat ts" using assms(1) by (rule mult_le_mono1)
  then have "unat a * unat ts < 2 ^ 64" using assms(2) by linarith
  then show ?thesis by (rule unat_mult_fits)
qed

lemma unat_Suc_le:
  assumes "unat (a :: 64 word) < unat (b :: 64 word)"
  shows "unat (a + 1) = unat a + 1"
proof -
  have "unat b < 2 ^ 64" using unsigned_less [of b] by simp
  then have "unat a + unat (1 :: 64 word) < 2 ^ 64" using assms by simp
  then have "unat (a + 1) = unat a + unat (1 :: 64 word)" by (rule unat_add_fits)
  then show ?thesis by simp
qed

lemma unat_block_bytes:
  assumes "16 + unat n * unat ts < 2 ^ 64"
  shows "\<not> sizeof_set_header + n * ts < sizeof_set_header"
    and "unat (sizeof_set_header + n * ts - sizeof_set_header) = unat n * unat ts"
proof -
  have m: "unat (n * ts) = unat n * unat ts"
    using assms by (simp add: unat_mult_fits)
  have s: "unat (sizeof_set_header + n * ts) = 16 + unat n * unat ts"
    using assms m by (simp add: sizeof_set_header_def unat_add_fits)
  show "\<not> sizeof_set_header + n * ts < sizeof_set_header"
    using s by (simp add: word_less_nat_alt sizeof_set_header_def)
  show "unat (sizeof_set_header + n * ts - sizeof_set_header) = unat n * unat ts"
    using m by simp
qed

lemma unat_new_capacity:
  assumes "2 * unat (c :: 64 word) < 2 ^ 64"
  shows "unat (if c = 0 then 1 else c * 2) = max 1 (2 * unat c)"
proof (cases "c = 0")
  case True
  then show ?thesis by simp
next
  case False
  then have "0 < unat c" by (simp add: unat_gt_0)
  moreover have "unat (c * 2) = unat c * 2"
    using assms by (simp add: unat_mult_fits)
  ultimately show ?thesis using False by simp
qed

lemma request_fits_mono: "m \<le> n \<Longrightarrow> request_fits ts n \<Longrightarrow> request_fits ts m"
proof -
  assume mn: "m \<le> n" and f: "request_fits ts n"
  have "m * unat ts \<le> n * unat ts" using mn by (rule mult_le_mono1)
  moreover have "n < 2 ^ 64" "16 + n * unat ts < 2 ^ 64"
    using f by (simp_all add: request_fits_def)
  ultimately have "m < 2 ^ 64" "16 + m * unat ts < 2 ^ 64"
    using mn by linarith+
  then show ?thesis by (simp add: request_fits_def)
qed

section \<open>What each operation does to a well-formed container\<close>

subsection \<open>Growth\<close>

lemma set_inv_create: "set_inv ts set_create"
  by (simp add: set_inv_def set_create_def)

lemma realloc_bytes_grow:
  "length d \<le> n \<Longrightarrow> realloc_bytes fresh n d = d @ map fresh [length d..<n]"
  by (simp add: realloc_bytes_def)

lemma set_realloc_fits:
  assumes inv: "set_inv ts h" and fits: "request_fits ts (max 1 (2 * unat (capacity h)))"
  shows "\<exists>h'. set_realloc fresh h ts = Some h' \<and> set_inv ts h' \<and> size_h h' = size_h h
          \<and> unat (capacity h') = max 1 (2 * unat (capacity h))
          \<and> take (length (data h)) (data h') = data h"
proof -
  define c' where "c' = (if capacity h = 0 then 1 else capacity h * 2)"
  have two: "2 * unat (capacity h) < 2 ^ 64"
    using fits by (simp add: request_fits_def)
  have c': "unat c' = max 1 (2 * unat (capacity h))"
    unfolding c'_def using two by (rule unat_new_capacity)
  have b: "16 + unat c' * unat ts < 2 ^ 64"
    using fits c' by (simp add: request_fits_def)
  have le: "unat (capacity h) \<le> unat c'" using c' by simp
  have len: "length (data h) \<le> unat c' * unat ts"
    using inv le by (simp add: set_inv_def mult_le_mono1)
  have r: "set_realloc fresh h ts =
    Some (h\<lparr>capacity := c', data := realloc_bytes fresh (unat c' * unat ts) (data h)\<rparr>)"
    using unat_block_bytes [OF b] by (simp add: set_realloc_def Let_def c'_def)
  have sz: "size_h h \<le> c'"
    using inv le by (simp add: set_inv_def word_le_nat_alt)
  show ?thesis
    using r c' b len sz by (simp add: set_inv_def realloc_bytes_grow realloc_bytes_def)
qed

lemma has_space_iff: "set_has_space h \<longleftrightarrow> capacity h - size_h h \<noteq> 0"
  by (simp add: set_has_space_def word_greater_zero_iff)

lemma has_space_less: "size_h h \<le> capacity h \<Longrightarrow> set_has_space h \<longleftrightarrow> size_h h < capacity h"
  by (auto simp: has_space_iff)

lemma space_ensured:
  assumes inv: "set_inv ts h" and fits: "grow_fits ts h"
  shows "\<exists>h'. (if \<not> set_has_space h then set_realloc fresh h ts else Some h) = Some h'
          \<and> set_inv ts h' \<and> size_h h' = size_h h \<and> size_h h' < capacity h'
          \<and> unat (capacity h') = (if set_has_space h then unat (capacity h) else max 1 (2 * unat (capacity h)))
          \<and> take (length (data h)) (data h') = data h"
proof (cases "set_has_space h")
  case True
  then show ?thesis using inv by (simp add: has_space_less set_inv_def)
next
  case False
  then have eq: "size_h h = capacity h"
    using inv by (simp add: has_space_less set_inv_def)
  from False fits have "request_fits ts (max 1 (2 * unat (capacity h)))"
    by (simp add: grow_fits_def)
  from set_realloc_fits [OF inv this, of fresh]
  obtain h' where h': "set_realloc fresh h ts = Some h'" "set_inv ts h'" "size_h h' = size_h h"
    "unat (capacity h') = max 1 (2 * unat (capacity h))" "take (length (data h)) (data h') = data h"
    by blast
  have "unat (size_h h') < unat (capacity h')"
    using h'(3,4) eq by simp
  then show ?thesis using False h' by (simp add: word_less_nat_alt)
qed

lemma grow_fits_room:
  assumes inv: "set_inv ts h" and f: "request_fits ts (2 * (unat (size_h h) + Suc m))"
  shows "grow_fits ts h"
proof (cases "set_has_space h")
  case True
  then show ?thesis by (simp add: grow_fits_def)
next
  case False
  then have "size_h h = capacity h"
    using inv by (simp add: has_space_less set_inv_def)
  then have "max 1 (2 * unat (capacity h)) \<le> 2 * (unat (size_h h) + Suc m)" by simp
  then have "request_fits ts (max 1 (2 * unat (capacity h)))"
    using f by (rule request_fits_mono)
  then show ?thesis by (simp add: grow_fits_def)
qed

lemma realloc_times_doubles:
  assumes "set_inv ts h" and "0 < unat (capacity h)"
    and "request_fits ts (unat (capacity h) * 2 ^ n)"
  shows "\<exists>h'. set_realloc_times fresh ts n h = Some h' \<and> set_inv ts h'
           \<and> unat (capacity h') = unat (capacity h) * 2 ^ n"
  using assms
proof (induction n arbitrary: h)
  case 0
  then show ?case by simp
next
  case (Suc n)
  have m: "max 1 (2 * unat (capacity h)) = 2 * unat (capacity h)"
    using Suc.prems(2) by simp
  have "2 * unat (capacity h) \<le> unat (capacity h) * 2 ^ Suc n" by simp
  then have "request_fits ts (2 * unat (capacity h))"
    using Suc.prems(3) by (rule request_fits_mono)
  then have "request_fits ts (max 1 (2 * unat (capacity h)))" using m by simp
  from set_realloc_fits [OF Suc.prems(1) this, of fresh]
  obtain h1 where h1: "set_realloc fresh h ts = Some h1" "set_inv ts h1"
    "unat (capacity h1) = 2 * unat (capacity h)"
    using m by auto
  have "request_fits ts (unat (capacity h1) * 2 ^ n)"
    using Suc.prems(3) h1(3) by (simp add: mult.assoc mult.left_commute)
  moreover have "0 < unat (capacity h1)" using h1(3) Suc.prems(2) by simp
  ultimately obtain h' where "set_realloc_times fresh ts n h1 = Some h'" "set_inv ts h'"
    "unat (capacity h') = unat (capacity h1) * 2 ^ n"
    using Suc.IH [OF h1(2)] by blast
  then show ?case using h1 by (simp add: mult.assoc mult.left_commute)
qed

lemma realloc_times_create:
  assumes "request_fits ts (2 ^ n)"
  shows "\<exists>h'. set_realloc_times fresh ts (Suc n) set_create = Some h' \<and> unat (capacity h') = 2 ^ n"
proof -
  have "(1::nat) \<le> 2 ^ n" by simp
  then have "request_fits ts 1" using assms by (rule request_fits_mono)
  then have "request_fits ts (max 1 (2 * unat (capacity set_create)))"
    by (simp add: set_create_def)
  from set_realloc_fits [OF set_inv_create this, of fresh]
  obtain h1 where h1: "set_realloc fresh set_create ts = Some h1" "set_inv ts h1"
    "unat (capacity h1) = 1"
    by (auto simp: set_create_def)
  have "request_fits ts (unat (capacity h1) * 2 ^ n)" using assms h1(3) by simp
  from realloc_times_doubles [OF h1(2) _ this, of fresh] h1(3)
  obtain h' where "set_realloc_times fresh ts n h1 = Some h'" "unat (capacity h') = 2 ^ n"
    by auto
  then show ?thesis using h1(1) by simp
qed

subsection \<open>Insert and append\<close>

lemma memmove_length: "memmove d dst src n = Some d' \<Longrightarrow> length d' = length d"
  by (auto simp: memmove_def split: if_splits)

lemma memmove_nothing: "dst \<le> length d \<Longrightarrow> src \<le> length d \<Longrightarrow> memmove d dst src 0 = Some d"
  by (simp add: memmove_def)

lemma insert_dst_shape:
  assumes inv: "set_inv ts h" and fits: "grow_fits ts h" and pos: "pos \<le> size_h h"
  shows "\<exists>h' r. (if \<not> set_has_space h then set_realloc fresh h ts else Some h) = Some h'
     \<and> set_inv ts h' \<and> size_h h' = size_h h \<and> size_h h' < capacity h'
     \<and> take (length (data h)) (data h') = data h
     \<and> unat (size_h h + 1) = unat (size_h h) + 1
     \<and> unat (pos * ts) = unat pos * unat ts
     \<and> set_insert_dst fresh h ts pos = Some (pos * ts,
          h'\<lparr>data := take (unat pos * unat ts) (data h') @ slot (unat ts) (data h') (unat pos)
                 @ take ((unat (size_h h) - unat pos) * unat ts) (drop (unat pos * unat ts) (data h')) @ r,
             size_h := size_h h + 1\<rparr>)
     \<and> length (take (unat pos * unat ts) (data h') @ slot (unat ts) (data h') (unat pos)
                 @ take ((unat (size_h h) - unat pos) * unat ts) (drop (unat pos * unat ts) (data h')) @ r)
         = length (data h')
     \<and> length (slot (unat ts) (data h') (unat pos)) = unat ts"
proof -
  from space_ensured [OF inv fits, of fresh]
  obtain h' where h': "(if \<not> set_has_space h then set_realloc fresh h ts else Some h) = Some h'"
    "set_inv ts h'" "size_h h' = size_h h" "size_h h' < capacity h'"
    "take (length (data h)) (data h') = data h"
    by blast
  define k where "k = unat ts"
  define p where "p = unat pos"
  define n where "n = unat (size_h h)"
  define c where "c = unat (capacity h')"
  define d where "d = data h'"
  have pn: "p \<le> n" using pos by (simp add: p_def n_def word_le_nat_alt)
  have nc: "n < c" using h'(3,4) by (simp add: n_def c_def word_less_nat_alt)
  have len: "length d = c * k" and bound: "16 + c * k < 2 ^ 64"
    using h'(2) by (simp_all add: set_inv_def c_def k_def d_def)
  have n1: "unat (size_h h + 1) = n + 1"
    using unat_Suc_le [of "size_h h" "capacity h'"] nc h'(3) by (simp add: n_def c_def)
  have p1: "unat (pos + 1) = p + 1"
    using unat_Suc_le [of pos "capacity h'"] pn nc by (simp add: p_def c_def)
  have a1: "unat ((pos + 1) * ts) = (p + 1) * k"
    using unat_mult_le [of "pos + 1" c ts] p1 pn nc bound by (simp add: k_def)
  have a2: "unat (pos * ts) = p * k"
    using unat_mult_le [of pos c ts] pn nc bound by (simp add: k_def p_def)
  have s: "unat (size_h h' - pos) = n - p"
    using pos h'(3) by (simp add: unat_sub n_def p_def)
  have a3: "unat ((size_h h' - pos) * ts) = (n - p) * k"
    using unat_mult_le [of "size_h h' - pos" c ts] s nc bound by (simp add: k_def)
  have e1: "p * k + (n - p) * k = n * k"
    using pn by (simp add: add_mult_distrib [symmetric])
  have e2: "(p + 1) * k + (n - p) * k = (n + 1) * k"
    using pn by (simp add: add_mult_distrib [symmetric])
  have b1: "n * k \<le> length d"
    using nc len by (simp add: mult_le_mono1)
  have b2: "(n + 1) * k \<le> length d"
    using nc len mult_le_mono1 [of "n + 1" c k] by simp
  have "(p + 1) * k \<le> (n + 1) * k"
    using pn by (intro mult_le_mono1) simp
  then have b3: "(p + 1) * k \<le> length d"
    using b2 by (rule le_trans)
  define r where "r = drop ((p + 1) * k + (n - p) * k) d"
  have in1: "p * k + (n - p) * k \<le> length d" using e1 b1 by simp
  have in2: "(p + 1) * k + (n - p) * k \<le> length d" using e2 b2 by simp
  have "(p + 1) * k = p * k + k" by simp
  then have tk: "take ((p + 1) * k) d = take (p * k) d @ slot k d p"
    by (simp only: take_add slot_def)
  have mm: "memmove d ((p + 1) * k) (p * k) ((n - p) * k)
      = Some (take (p * k) d @ slot k d p @ take ((n - p) * k) (drop (p * k) d) @ r)"
    by (simp only: memmove_def r_def in1 in2 simp_thms if_True tk append_assoc)
  have ins: "set_insert_dst fresh h ts pos = Some (pos * ts,
      h'\<lparr>data := take (p * k) d @ slot k d p @ take ((n - p) * k) (drop (p * k) d) @ r,
         size_h := size_h h + 1\<rparr>)"
    using h'(1) mm a1 a2 a3 by (simp add: set_insert_dst_def d_def)
  have l: "length (take (p * k) d @ slot k d p @ take ((n - p) * k) (drop (p * k) d) @ r) = length d"
    using memmove_length [OF mm] .
  have lv: "length (slot k d p) = k"
    using b3 by (simp add: slot_def)
  show ?thesis
    using h' n1 a2 ins l lv unfolding k_def p_def n_def d_def by blast
qed

lemma insert_then_write:
  assumes inv: "set_inv ts h" and fits: "grow_fits ts h"
    and pos: "pos \<le> size_h h" and v: "length v = unat ts"
  shows "\<exists>h1 h2. set_insert_dst fresh h ts pos = Some (pos * ts, h1)
     \<and> unat (pos * ts) = unat pos * unat ts
     \<and> unat (size_h h1) = unat (size_h h) + 1
     \<and> elements ts h1 = take (unat pos) (elements ts h) @ [slot (unat ts) (data h1) (unat pos)]
          @ drop (unat pos) (elements ts h)
     \<and> write_slot h1 (pos * ts) v = Some h2
     \<and> set_inv ts h1 \<and> set_inv ts h2
     \<and> size_h h2 = size_h h1 \<and> capacity h2 = capacity h1
     \<and> elements ts h2 = take (unat pos) (elements ts h) @ [v] @ drop (unat pos) (elements ts h)"
proof -
  define k where "k = unat ts"
  define p where "p = unat pos"
  define n where "n = unat (size_h h)"
  from insert_dst_shape [OF inv fits pos, of fresh]
  obtain h' r where h': "set_inv ts h'" "size_h h' = size_h h" "size_h h' < capacity h'"
    and pre: "take (length (data h)) (data h') = data h"
    and n1: "unat (size_h h + 1) = n + 1"
    and off: "unat (pos * ts) = p * k"
    and ins: "set_insert_dst fresh h ts pos = Some (pos * ts,
          h'\<lparr>data := take (p * k) (data h') @ slot k (data h') p
                 @ take ((n - p) * k) (drop (p * k) (data h')) @ r,
             size_h := size_h h + 1\<rparr>)"
    and len: "length (take (p * k) (data h') @ slot k (data h') p
                 @ take ((n - p) * k) (drop (p * k) (data h')) @ r) = length (data h')"
    and lw: "length (slot k (data h') p) = k"
    unfolding k_def p_def n_def by blast
  define d where "d = data h'"
  define C where "C = take ((n - p) * k) (drop (p * k) d) @ r"
  define h1 where "h1 = h'\<lparr>data := take (p * k) d @ slot k d p @ C, size_h := size_h h + 1\<rparr>"
  define h2 where "h2 = h1\<lparr>data := take (p * k) d @ v @ C\<rparr>"
  define E where "E = elements ts h"
  have pn: "p \<le> n" using pos by (simp add: p_def n_def word_le_nat_alt)
  have nk: "n * k \<le> length d"
    using size_bytes_le [OF h'(1)] h'(2) by (simp add: n_def k_def d_def)
  have lenA: "length (take (p * k) d) = p * k"
    using le_trans [OF mult_le_mono1 [OF pn] nk] by simp
  have E: "map (slot k d) [0..<n] = E"
    unfolding E_def k_def n_def d_def
    using pre size_bytes_le [OF inv] by (rule elements_prefix) simp
  have e1: "elements ts h1 = take p E @ [slot k d p] @ drop p E"
    using slots_after_insert [OF lw [folded d_def] pn nk, of r] n1
    by (simp add: elements_def h1_def C_def E k_def [symmetric])
  have "elements ts h1 ! p = slot k (data h1) p"
    using pn n1 by (simp add: elements_def h1_def k_def [symmetric] nth_map_upt del: upt_Suc)
  moreover have "(take p E @ [slot k d p] @ drop p E) ! p = slot k d p"
    using pn E by (auto simp: nth_append)
  ultimately have "slot k (data h1) p = slot k d p" using e1 by simp
  then have e1': "elements ts h1 = take p E @ [slot k (data h1) p] @ drop p E"
    using e1 by simp
  have in_b: "p * k + length v \<le> length (data h1)"
    using lenA lw v by (simp add: h1_def k_def d_def)
  have "take (p * k) (data h1) @ v @ drop (p * k + length v) (data h1) = take (p * k) d @ v @ C"
    unfolding h1_def using lenA lw v
    by (simp add: k_def [symmetric] d_def [symmetric])
  then have w: "write_slot h1 (pos * ts) v = Some h2"
    using in_b off by (simp add: write_slot_def h2_def)
  have e2: "elements ts h2 = take p E @ [v] @ drop p E"
    using slots_after_insert [OF v [folded k_def] pn nk, of r] n1
    by (simp add: elements_def h2_def h1_def C_def E k_def [symmetric])
  have "set_insert_dst fresh h ts pos = Some (pos * ts, h1)"
    using ins by (simp add: h1_def d_def C_def)
  moreover have "unat (size_h h1) = n + 1" using n1 by (simp add: h1_def)
  moreover have "size_h h2 = size_h h1" "capacity h2 = capacity h1" by (simp_all add: h2_def)
  moreover have i1: "set_inv ts h1"
  proof -
    have "unat (size_h h + 1) \<le> unat (capacity h')"
      using n1 h'(2,3) by (simp add: n_def word_less_nat_alt)
    then show ?thesis
      using h'(1) len by (simp add: set_inv_def h1_def word_le_nat_alt d_def C_def)
  qed
  moreover have "set_inv ts h2"
    using i1 lw v by (simp add: set_inv_def h2_def h1_def k_def d_def)
  ultimately show ?thesis
    using off w e1' e2 unfolding k_def p_def n_def E_def by blast
qed

lemma insert_at_end:
  assumes inv: "set_inv ts h" and fits: "grow_fits ts h"
  shows "set_insert_dst fresh h ts (size_h h) = set_add_dst fresh h ts"
proof -
  from space_ensured [OF inv fits, of fresh]
  obtain h' where h': "(if \<not> set_has_space h then set_realloc fresh h ts else Some h) = Some h'"
    "set_inv ts h'" "size_h h' = size_h h" "size_h h' < capacity h'"
    by blast
  define n where "n = unat (size_h h)"
  define c where "c = unat (capacity h')"
  define k where "k = unat ts"
  have nc: "n < c" using h'(3,4) by (simp add: n_def c_def word_less_nat_alt)
  have len: "length (data h') = c * k" and bound: "16 + c * k < 2 ^ 64"
    using h'(2) by (simp_all add: set_inv_def c_def k_def)
  have n1: "unat (size_h h + 1) = n + 1"
    using unat_Suc_le [of "size_h h" "capacity h'"] nc h'(3) by (simp add: n_def c_def)
  have a1: "unat ((size_h h + 1) * ts) = (n + 1) * k"
    using unat_mult_le [of "size_h h + 1" c ts] n1 nc bound by (simp add: k_def)
  have a2: "unat (size_h h * ts) = n * k"
    using unat_mult_le [of "size_h h" c ts] nc bound by (simp add: k_def n_def)
  have b1: "(n + 1) * k \<le> length (data h')"
    using nc len mult_le_mono1 [of "n + 1" c k] by simp
  have b2: "n * k \<le> length (data h')"
    using nc len by (simp add: mult_le_mono1)
  have mm: "memmove (data h') ((n + 1) * k) (n * k) 0 = Some (data h')"
    using b1 b2 by (rule memmove_nothing)
  show ?thesis
    using h'(1,3) mm a1 a2 by (simp add: set_insert_dst_def set_add_dst_def mult.commute)
qed

lemma append_then_write:
  assumes inv: "set_inv ts h" and fits: "grow_fits ts h" and v: "length v = unat ts"
  shows "\<exists>h1 h2. set_add_dst fresh h ts = Some (ts * size_h h, h1)
     \<and> unat (ts * size_h h) = unat (size_h h) * unat ts
     \<and> write_slot h1 (ts * size_h h) v = Some h2
     \<and> set_inv ts h1 \<and> set_inv ts h2
     \<and> unat (size_h h1) = unat (size_h h) + 1
     \<and> size_h h1 = size_h h + 1
     \<and> size_h h2 = size_h h1 \<and> capacity h2 = capacity h1
     \<and> elements ts h1 = elements ts h @ [slot (unat ts) (data h1) (unat (size_h h))]
     \<and> elements ts h2 = elements ts h @ [v]"
proof -
  have le: "size_h h \<le> size_h h" by simp
  have l: "length (elements ts h) = unat (size_h h)" by (simp add: elements_def)
  from insert_then_write [OF inv fits le v, of fresh]
  obtain h1 h2 where *: "set_insert_dst fresh h ts (size_h h) = Some (size_h h * ts, h1)"
     "unat (size_h h * ts) = unat (size_h h) * unat ts"
     "unat (size_h h1) = unat (size_h h) + 1"
     "elements ts h1 = take (unat (size_h h)) (elements ts h)
        @ [slot (unat ts) (data h1) (unat (size_h h))] @ drop (unat (size_h h)) (elements ts h)"
     "write_slot h1 (size_h h * ts) v = Some h2"
     "set_inv ts h1" "set_inv ts h2" "size_h h2 = size_h h1" "capacity h2 = capacity h1"
     "elements ts h2 = take (unat (size_h h)) (elements ts h) @ [v]
        @ drop (unat (size_h h)) (elements ts h)"
    by blast
  have a: "set_add_dst fresh h ts = Some (ts * size_h h, h1)"
    using *(1) insert_at_end [OF inv fits, of fresh] by (simp add: mult.commute)
  have "size_h h1 = size_h h + 1"
    using a by (auto simp: set_add_dst_def bind_eq_Some_conv set_realloc_def Let_def split: if_splits)
  then show ?thesis
    using * a l by (simp add: mult.commute)
qed

lemma offsets_Cons:
  "(ts * s) # map (\<lambda>i. ts * (s + 1 + of_nat i)) [0..<m]
     = map (\<lambda>i. ts * (s + of_nat i)) [0..<Suc m]"
proof -
  have "[0..<Suc m] = 0 # map Suc [0..<m]"
    by (simp add: upt_conv_Cons map_Suc_upt del: upt_Suc)
  then show ?thesis by (simp add: o_def add.assoc del: upt_Suc)
qed

lemma append_all_from:
  assumes "set_inv ts h" and "request_fits ts (2 * (unat (size_h h) + length xs))"
    and "\<forall>x\<in>set xs. length (snd x) = unat ts"
  shows "\<exists>h'. append_all ts xs h
            = Some (map (\<lambda>i. ts * (size_h h + of_nat i)) [0..<length xs], h')
          \<and> set_inv ts h' \<and> unat (size_h h') = unat (size_h h) + length xs
          \<and> elements ts h' = elements ts h @ map snd xs"
  using assms
proof (induction xs arbitrary: h)
  case Nil
  then show ?case by simp
next
  case (Cons x xs)
  obtain fresh v where x: "x = (fresh, v)" by (cases x)
  have v: "length v = unat ts" using Cons.prems(3) x by simp
  have g: "grow_fits ts h"
    using Cons.prems(1,2) by (intro grow_fits_room [of ts h "length xs"]) simp_all
  from append_then_write [OF Cons.prems(1) g v, of fresh]
  obtain h1 h2 where s: "set_add_dst fresh h ts = Some (ts * size_h h, h1)"
    "write_slot h1 (ts * size_h h) v = Some h2" "set_inv ts h2"
    "unat (size_h h1) = unat (size_h h) + 1" "size_h h1 = size_h h + 1"
    "size_h h2 = size_h h1" "elements ts h2 = elements ts h @ [v]"
    by blast
  have "request_fits ts (2 * (unat (size_h h2) + length xs))"
    using Cons.prems(2) s(4,6) by simp
  moreover have "\<forall>x\<in>set xs. length (snd x) = unat ts" using Cons.prems(3) by simp
  ultimately obtain h' where h': "append_all ts xs h2
            = Some (map (\<lambda>i. ts * (size_h h2 + of_nat i)) [0..<length xs], h')"
    "set_inv ts h'" "unat (size_h h') = unat (size_h h2) + length xs"
    "elements ts h' = elements ts h2 @ map snd xs"
    using Cons.IH [OF s(3)] by blast
  have "append_all ts (x # xs) h
      = Some ((ts * size_h h) # map (\<lambda>i. ts * (size_h h + 1 + of_nat i)) [0..<length xs], h')"
    using s(1,2) h'(1) s(5,6) by (simp add: x)
  then have "append_all ts (x # xs) h
      = Some (map (\<lambda>i. ts * (size_h h + of_nat i)) [0..<length (x # xs)], h')"
    by (simp only: offsets_Cons length_Cons)
  moreover have "unat (size_h h') = unat (size_h h) + length (x # xs)"
    using h'(3) s(4,6) by simp
  moreover have "elements ts h' = elements ts h @ map snd (x # xs)"
    using h'(4) s(7) by (simp add: x)
  ultimately show ?case using h'(2) by blast
qed

subsection \<open>Erase and reserve\<close>

lemma erase_shape:
  assumes inv: "set_inv ts h" and rng: "unat pos + unat len \<le> unat (size_h h)"
  shows "\<exists>r. set_erase h ts pos len = Some (h\<lparr>data := take (unat pos * unat ts) (data h)
              @ take ((unat (size_h h) - unat pos - unat len) * unat ts)
                  (drop ((unat pos + unat len) * unat ts) (data h)) @ r,
            size_h := size_h h - len\<rparr>)
          \<and> length (take (unat pos * unat ts) (data h)
              @ take ((unat (size_h h) - unat pos - unat len) * unat ts)
                  (drop ((unat pos + unat len) * unat ts) (data h)) @ r) = length (data h)
          \<and> unat (size_h h - len) = unat (size_h h) - unat len"
proof -
  define k where "k = unat ts"
  define p where "p = unat pos"
  define l where "l = unat len"
  define n where "n = unat (size_h h)"
  define c where "c = unat (capacity h)"
  define d where "d = data h"
  have pl: "p + l \<le> n" using rng by (simp add: p_def l_def n_def)
  have nc: "n \<le> c" using inv by (simp add: set_inv_def n_def c_def word_le_nat_alt)
  have len: "length d = c * k" and bound: "16 + c * k < 2 ^ 64"
    using inv by (simp_all add: set_inv_def c_def k_def d_def)
  have "n < 2 ^ 64" using unsigned_less [of "size_h h"] by (simp add: n_def)
  then have "unat pos + unat len < 2 ^ 64" using pl by (simp add: p_def l_def)
  then have s1: "unat (pos + len) = p + l"
    unfolding p_def l_def by (rule unat_add_fits)
  have a1: "unat (pos * ts) = p * k"
    using unat_mult_le [of pos c ts] pl nc bound by (simp add: k_def p_def)
  have a2: "unat ((pos + len) * ts) = (p + l) * k"
    using unat_mult_le [of "pos + len" c ts] s1 pl nc bound by (simp add: k_def)
  have ple: "pos \<le> size_h h" using pl by (simp add: word_le_nat_alt p_def n_def)
  then have s2: "unat (size_h h - pos) = n - p" by (simp add: unat_sub n_def p_def)
  have "len \<le> size_h h - pos" using pl s2 by (simp add: word_le_nat_alt l_def)
  then have s3: "unat (size_h h - pos - len) = n - p - l"
    using s2 by (simp add: unat_sub l_def)
  have a3: "unat ((size_h h - pos - len) * ts) = (n - p - l) * k"
    using unat_mult_le [of "size_h h - pos - len" c ts] s3 nc bound by (simp add: k_def)
  have "len \<le> size_h h" using pl by (simp add: word_le_nat_alt l_def n_def)
  then have s4: "unat (size_h h - len) = n - l" by (simp add: unat_sub n_def l_def)
  have nk: "n * k \<le> length d" using nc len by (simp add: mult_le_mono1)
  have e1: "(p + l) * k + (n - p - l) * k = n * k"
    using pl by (simp add: add_mult_distrib [symmetric])
  have "p * k + (n - p - l) * k \<le> (p + l) * k + (n - p - l) * k"
    by (simp add: add_mult_distrib)
  then have in2: "p * k + (n - p - l) * k \<le> length d" using e1 nk by linarith
  have in1: "(p + l) * k + (n - p - l) * k \<le> length d" using e1 nk by simp
  define r where "r = drop (p * k + (n - p - l) * k) d"
  have mm: "memmove d (p * k) ((p + l) * k) ((n - p - l) * k)
      = Some (take (p * k) d @ take ((n - p - l) * k) (drop ((p + l) * k) d) @ r)"
    by (simp only: memmove_def r_def in1 in2 simp_thms if_True)
  have er: "set_erase h ts pos len = Some (h\<lparr>data := take (p * k) d
      @ take ((n - p - l) * k) (drop ((p + l) * k) d) @ r, size_h := size_h h - len\<rparr>)"
    using mm a1 a2 a3 by (simp add: set_erase_def d_def)
  show ?thesis
    using er memmove_length [OF mm] s4 unfolding k_def p_def l_def n_def d_def by blast
qed

lemma reserve_grows:
  assumes lt: "capacity h < cap" and inv: "set_inv ts h" and fits: "request_fits ts (unat cap)"
  shows "\<exists>h'. set_reserve fresh h ts cap = Some h' \<and> capacity h' = cap \<and> size_h h' = size_h h
           \<and> set_inv ts h'
           \<and> take (length (data h)) (data h') = data h
           \<and> elements ts h' = elements ts h"
proof -
  have b: "16 + unat cap * unat ts < 2 ^ 64"
    using fits by (simp add: request_fits_def)
  have le: "unat (capacity h) \<le> unat cap"
    using lt by (simp add: word_less_nat_alt)
  have len: "length (data h) \<le> unat cap * unat ts"
    using inv le by (simp add: set_inv_def mult_le_mono1)
  define h' where "h' = h\<lparr>capacity := cap, data := realloc_bytes fresh (unat cap * unat ts) (data h)\<rparr>"
  have r: "set_reserve fresh h ts cap = Some h'"
    using unat_block_bytes [OF b] lt by (simp add: set_reserve_def Let_def h'_def not_le [symmetric])
  have sz: "size_h h \<le> cap"
    using inv le by (simp add: set_inv_def word_le_nat_alt)
  have pre: "take (length (data h)) (data h') = data h"
    using len by (simp add: h'_def realloc_bytes_grow)
  have i': "set_inv ts h'"
    using b sz by (simp add: set_inv_def h'_def realloc_bytes_def)
  have "map (slot (unat ts) (data h')) [0..<unat (size_h h)] = elements ts h"
    using pre size_bytes_le [OF inv] by (rule elements_prefix) simp
  then have "elements ts h' = elements ts h"
    by (simp add: elements_def h'_def)
  then show ?thesis using r pre i' by (simp add: h'_def)
qed

subsection \<open>Invariant, copy and the heap\<close>

lemma erase_keeps_inv:
  assumes inv: "set_inv ts h" and rng: "unat pos + unat len \<le> unat (size_h h)"
  shows "\<exists>h'. set_erase h ts pos len = Some h' \<and> set_inv ts h'"
proof -
  from erase_shape [OF inv rng]
  obtain d' where e: "set_erase h ts pos len = Some (h\<lparr>data := d', size_h := size_h h - len\<rparr>)"
    and l: "length d' = length (data h)"
    and s: "unat (size_h h - len) = unat (size_h h) - unat len"
    by blast
  have "unat (size_h h) \<le> unat (capacity h)"
    using inv by (simp add: set_inv_def word_le_nat_alt)
  then have "unat (size_h h - len) \<le> unat (capacity h)"
    using s by linarith
  then have "set_inv ts (h\<lparr>data := d', size_h := size_h h - len\<rparr>)"
    using inv l by (simp add: set_inv_def word_le_nat_alt)
  then show ?thesis using e by simp
qed

lemma pop_keeps_inv:
  assumes inv: "set_inv ts h" and pos: "0 < size_h h"
  shows "set_inv ts (set_pop h)"
proof -
  have "unat (size_h h - 1) = unat (size_h h) - 1"
    using pos by (simp add: unat_gt_0 unat_minus_one)
  moreover have "unat (size_h h) \<le> unat (capacity h)"
    using inv by (simp add: set_inv_def word_le_nat_alt)
  ultimately have "unat (size_h h - 1) \<le> unat (capacity h)"
    by linarith
  then show ?thesis using inv by (simp add: set_inv_def set_pop_def word_le_nat_alt)
qed

lemma reserve_keeps_inv:
  assumes inv: "set_inv ts h" and fits: "capacity h < cap \<longrightarrow> request_fits ts (unat cap)"
  shows "\<exists>h'. set_reserve fresh h ts cap = Some h' \<and> set_inv ts h'"
proof (cases "capacity h < cap")
  case True
  then show ?thesis using reserve_grows [OF True inv, of fresh] fits by blast
next
  case False
  then show ?thesis using inv by (simp add: set_reserve_def not_less)
qed

lemma copy_shape:
  assumes inv: "set_inv ts h"
  shows "set_copy h ts = Some \<lparr>size_h = size_h h, capacity = size_h h,
            data = take (unat (size_h h) * unat ts) (data h)\<rparr>"
    and "set_inv ts \<lparr>size_h = size_h h, capacity = size_h h,
            data = take (unat (size_h h) * unat ts) (data h)\<rparr>"
proof -
  have le: "unat (size_h h) * unat ts \<le> length (data h)"
    using inv by (rule size_bytes_le)
  have "16 + length (data h) < 2 ^ 64"
    using inv by (simp add: set_inv_def)
  then have b: "16 + unat (size_h h) * unat ts < 2 ^ 64"
    using le by linarith
  show "set_copy h ts = Some \<lparr>size_h = size_h h, capacity = size_h h,
            data = take (unat (size_h h) * unat ts) (data h)\<rparr>"
    using unat_block_bytes [OF b] le by (simp add: set_copy_def Let_def not_less)
  show "set_inv ts \<lparr>size_h = size_h h, capacity = size_h h,
            data = take (unat (size_h h) * unat ts) (data h)\<rparr>"
    using b le by (simp add: set_inv_def)
qed

lemma copy_elements:
  assumes inv: "set_inv ts h"
  shows "elements ts \<lparr>size_h = size_h h, capacity = size_h h,
            data = take (unat (size_h h) * unat ts) (data h)\<rparr> = elements ts h"
proof -
  have "slot (unat ts) (take (unat (size_h h) * unat ts) (data h)) i = slot (unat ts) (data h) i"
    if "i < unat (size_h h)" for i
    using mult_mono_k [OF that, of "unat ts"] by (rule slot_take)
  then show ?thesis by (simp add: elements_def)
qed

lemma mutate_frame:
  assumes m: "mutate fresh q m H a = Some (H', a')" and ne: "b \<noteq> a" and b: "H b = Some hb"
  shows "H' b = Some hb \<and> b \<noteq> a'"
proof -
  obtain h h' where h: "H a = Some h" "mutate_block fresh m h = Some h'"
    using m by (auto simp: mutate_def split: option.splits)
  show ?thesis
  proof (cases "reallocates m h")
    case True
    then have "q = a \<or> H q = None" and "H' = (H(a := None))(q \<mapsto> h')" and "a' = q"
      using m h by (auto simp: mutate_def split: if_splits)
    then show ?thesis using ne b by auto
  next
    case False
    then have "H' = H(a \<mapsto> h')" and "a' = a"
      using m h by (auto simp: mutate_def)
    then show ?thesis using ne b by auto
  qed
qed

lemma mutate_all_frame:
  assumes "mutate_all ms H a = Some (H', a')" and "b \<noteq> a" and "H b = Some hb"
  shows "H' b = Some hb \<and> b \<noteq> a'"
  using assms
proof (induction ms arbitrary: H a)
  case Nil
  then show ?case by simp
next
  case (Cons x ms)
  obtain fresh q m where x: "x = (fresh, q, m)" by (cases x)
  from Cons.prems(1) obtain H1 a1 where s: "mutate fresh q m H a = Some (H1, a1)"
    and r: "mutate_all ms H1 a1 = Some (H', a')"
    by (auto simp: x split: option.splits)
  from mutate_frame [OF s Cons.prems(2,3)] have "H1 b = Some hb" "b \<noteq> a1" by simp_all
  then show ?case using Cons.IH [OF r] by simp
qed

subsection \<open>The containment check\<close>

text \<open>
  On one-byte elements the scan of \<open>set_contains\<close> is a scan of the elements, and
  \<open>set_add\<close> is duplicate-free: a value whose byte is stored leaves the container as
  it is, any other value is appended.
\<close>

lemma scan_finds:
  "\<forall>i\<in>set js. i < length d \<and> i < 2 ^ 31 \<Longrightarrow>
   set_contains_scan d v js = Some (v \<in> set (map (\<lambda>i. d ! i) js))"
  by (induction js) auto

lemma slot_one: "i < length d \<Longrightarrow> slot 1 d i = [d ! i]"
  by (simp add: slot_def take_Suc_conv_app_nth [of 0 "drop i d", simplified] hd_drop_conv_nth)

lemma low_byte: "(of_nat (x mod 256) :: byte) = of_nat x"
  by (simp add: word_unat_eq_iff unat_of_nat)

lemma elements_one:
  assumes "unat (size_h h) \<le> length (data h)"
  shows "elements 1 h = map (\<lambda>i. [data h ! i]) [0..<unat (size_h h)]"
  using assms by (auto simp: elements_def slot_one [simplified])

lemma set_add_one_byte:
  assumes inv: "set_inv 1 h" and fits: "grow_fits 1 h" and small: "unat (size_h h) \<le> 2 ^ 31"
  shows "([of_nat x] \<in> set (elements 1 h) \<longrightarrow> set_add fresh h 1 x = Some h)
     \<and> ([of_nat x] \<notin> set (elements 1 h) \<longrightarrow>
          (\<exists>h'. set_add fresh h 1 x = Some h' \<and> unat (size_h h') = unat (size_h h) + 1
             \<and> elements 1 h' = elements 1 h @ [[of_nat x]]))"
proof -
  have le: "unat (size_h h) \<le> length (data h)"
    using size_bytes_le [OF inv] by simp
  have "\<forall>i\<in>set [0..<unat (size_h h)]. i < length (data h) \<and> i < 2 ^ 31"
    using le small by auto
  then have c: "set_contains h (of_nat x)
      = Some (of_nat x \<in> set (map (\<lambda>i. data h ! i) [0..<unat (size_h h)]))"
    unfolding set_contains_def set_size_def by (rule scan_finds)
  have m: "[of_nat x] \<in> set (elements 1 h)
      \<longleftrightarrow> of_nat x \<in> set (map (\<lambda>i. data h ! i) [0..<unat (size_h h)])"
    by (auto simp: elements_one [OF le])
  have o: "object_bytes (unat (1 :: 64 word)) x = [of_nat x]"
    by (simp add: low_byte)
  have v: "length [of_nat x :: byte] = unat (1 :: 64 word)" by simp
  from append_then_write [OF inv fits v, of fresh]
  obtain h1 h2 where a: "set_add_dst fresh h 1 = Some (1 * size_h h, h1)"
    "write_slot h1 (1 * size_h h) [of_nat x] = Some h2"
    "unat (size_h h1) = unat (size_h h) + 1" "size_h h2 = size_h h1"
    "elements 1 h2 = elements 1 h @ [[of_nat x]]"
    by blast
  show ?thesis
    using c m o a by (simp add: set_add_def set_add_with_def)
qed

text \<open>
  Two containers of four-byte elements: the one holding 1 and 2 does not contain the
  byte 2 among its first two bytes, the one holding 1 contains the low byte of 257.
\<close>

lemma contains_12:
  "set_contains \<lparr>size_h = 2, capacity = 4,
       data = [1, 0, 0, 0, 2, 0, 0, 0, 0, 0, 0, 0, 0, 0, 0, 0]\<rparr> (of_nat 2) = Some False"
  by (simp add: set_contains_def set_size_def upt_conv_Cons)

lemma contains_1:
  "set_contains \<lparr>size_h = 1, capacity = 1, data = [1, 0, 0, 0]\<rparr> (of_nat 257) = Some True"
  by (simp add: set_contains_def set_size_def upt_conv_Cons)

text \<open>
  The macro on the container holding 1, with any check: the candidates 1 and 257 reach
  the check as the same byte.
\<close>

lemma add_with_1:
  "set_add_with chk fresh \<lparr>size_h = 1, capacity = 1, data = [1, 0, 0, 0]\<rparr> 4 1
     = (case chk \<lparr>size_h = 1, capacity = 1, data = [1, 0, 0, 0]\<rparr> 1 of
          None \<Rightarrow> None
        | Some found \<Rightarrow>
            if found then Some \<lparr>size_h = 1, capacity = 1, data = [1, 0, 0, 0]\<rparr>
            else Some \<lparr>size_h = 2, capacity = 2, data = [1, 0, 0, 0, 1, 0, 0, 0]\<rparr>)"
proof -
  have o: "object_bytes 4 1 = [1, 0, 0, 0]" by code_simp
  show ?thesis
    using o
    by (simp add: set_add_with_def set_add_dst_def set_has_space_def set_realloc_def
        sizeof_set_header_def realloc_bytes_def write_slot_def split: option.splits)
qed

lemma add_with_257:
  "set_add_with chk fresh \<lparr>size_h = 1, capacity = 1, data = [1, 0, 0, 0]\<rparr> 4 257
     = (case chk \<lparr>size_h = 1, capacity = 1, data = [1, 0, 0, 0]\<rparr> 1 of
          None \<Rightarrow> None
        | Some found \<Rightarrow>
            if found then Some \<lparr>size_h = 1, capacity = 1, data = [1, 0, 0, 0]\<rparr>
            else Some \<lparr>size_h = 2, capacity = 2, data = [1, 0, 0, 0, 1, 1, 0, 0]\<rparr>)"
proof -
  have o: "object_bytes 4 257 = [1, 1, 0, 0]" by code_simp
  have t: "(257 :: byte) = 1" by simp
  show ?thesis
    using o
    by (simp add: t set_add_with_def set_add_dst_def set_has_space_def set_realloc_def
        sizeof_set_header_def realloc_bytes_def write_slot_def split: option.splits)
qed

section \<open>The claims\<close>

subsection \<open>Duplicate-free add\<close>

text \<open>
  Claim C1 says that \<open>set_add\<close> scans all current elements for byte-equality with
  the candidate, leaves the container unchanged when an equal element is found, and
  appends the value otherwise. The macro hands the check \<open>(unsigned char)value\<close> and
  nothing else of the candidate. So on the container of four-byte elements that holds 1,
  whatever function \<open>chk\<close> does the check, adding 1 and adding 257 get the same
  answer: either 257, which is not an element, is not appended, or 1, which is one, is
  appended again. With the check of set.c, which visits the first \<open>size\<close> bytes of the
  storage, adding 2 to the container holding 1 and 2 appends a second 2 (bytes 0 and 1
  of the storage are 1 and 0), and adding 257 to the container holding 1 changes nothing.
\<close>

theorem set_add_compares_one_byte:
  "set_add_with chk fresh \<lparr>size_h = 1, capacity = 1, data = [1, 0, 0, 0]\<rparr> 4 1
     = (case chk \<lparr>size_h = 1, capacity = 1, data = [1, 0, 0, 0]\<rparr> 1 of
          None \<Rightarrow> None
        | Some found \<Rightarrow>
            if found then Some \<lparr>size_h = 1, capacity = 1, data = [1, 0, 0, 0]\<rparr>
            else Some \<lparr>size_h = 2, capacity = 2, data = [1, 0, 0, 0, 1, 0, 0, 0]\<rparr>)
   \<and> set_add_with chk fresh \<lparr>size_h = 1, capacity = 1, data = [1, 0, 0, 0]\<rparr> 4 257
     = (case chk \<lparr>size_h = 1, capacity = 1, data = [1, 0, 0, 0]\<rparr> 1 of
          None \<Rightarrow> None
        | Some found \<Rightarrow>
            if found then Some \<lparr>size_h = 1, capacity = 1, data = [1, 0, 0, 0]\<rparr>
            else Some \<lparr>size_h = 2, capacity = 2, data = [1, 0, 0, 0, 1, 1, 0, 0]\<rparr>)
   \<and> elements 4 \<lparr>size_h = 2, capacity = 4,
       data = [1, 0, 0, 0, 2, 0, 0, 0, 0, 0, 0, 0, 0, 0, 0, 0]\<rparr> = [[1, 0, 0, 0], [2, 0, 0, 0]]
   \<and> object_bytes 4 2 = [2, 0, 0, 0]
   \<and> object_bytes 4 2 \<in> set (elements 4 \<lparr>size_h = 2, capacity = 4,
       data = [1, 0, 0, 0, 2, 0, 0, 0, 0, 0, 0, 0, 0, 0, 0, 0]\<rparr>)
   \<and> set_add fresh \<lparr>size_h = 2, capacity = 4,
       data = [1, 0, 0, 0, 2, 0, 0, 0, 0, 0, 0, 0, 0, 0, 0, 0]\<rparr> 4 2
     = Some \<lparr>size_h = 3, capacity = 4, data = [1, 0, 0, 0, 2, 0, 0, 0, 2, 0, 0, 0, 0, 0, 0, 0]\<rparr>
   \<and> elements 4 \<lparr>size_h = 1, capacity = 1, data = [1, 0, 0, 0]\<rparr> = [[1, 0, 0, 0]]
   \<and> object_bytes 4 257 = [1, 1, 0, 0]
   \<and> object_bytes 4 257 \<notin> set (elements 4 \<lparr>size_h = 1, capacity = 1, data = [1, 0, 0, 0]\<rparr>)
   \<and> set_add fresh \<lparr>size_h = 1, capacity = 1, data = [1, 0, 0, 0]\<rparr> 4 257
     = Some \<lparr>size_h = 1, capacity = 1, data = [1, 0, 0, 0]\<rparr>"
proof -
  have e1: "elements 4 \<lparr>size_h = 2, capacity = 4,
       data = [1, 0, 0, 0, 2, 0, 0, 0, 0, 0, 0, 0, 0, 0, 0, 0]\<rparr> = [[1, 0, 0, 0], [2, 0, 0, 0]]"
    by code_simp
  have e2: "elements 4 \<lparr>size_h = 1, capacity = 1, data = [1, 0, 0, 0]\<rparr> = [[1, 0, 0, 0]]"
    by code_simp
  have o1: "object_bytes 4 2 = [2, 0, 0, 0]" by code_simp
  have o2: "object_bytes 4 257 = [1, 1, 0, 0]" by code_simp
  have a1: "set_add fresh \<lparr>size_h = 2, capacity = 4,
       data = [1, 0, 0, 0, 2, 0, 0, 0, 0, 0, 0, 0, 0, 0, 0, 0]\<rparr> 4 2
     = Some \<lparr>size_h = 3, capacity = 4, data = [1, 0, 0, 0, 2, 0, 0, 0, 2, 0, 0, 0, 0, 0, 0, 0]\<rparr>"
    using o1
    by (simp add: set_add_def set_add_with_def contains_12 [simplified] set_add_dst_def
        set_has_space_def
        write_slot_def)
  have a2: "set_add fresh \<lparr>size_h = 1, capacity = 1, data = [1, 0, 0, 0]\<rparr> 4 257
     = Some \<lparr>size_h = 1, capacity = 1, data = [1, 0, 0, 0]\<rparr>"
    by (simp add: set_add_def set_add_with_def contains_1 [simplified])
  have i1: "object_bytes 4 2 \<in> set (elements 4 \<lparr>size_h = 2, capacity = 4,
       data = [1, 0, 0, 0, 2, 0, 0, 0, 0, 0, 0, 0, 0, 0, 0, 0]\<rparr>)"
    by (simp only: e1 o1) simp
  have i2: "object_bytes 4 257 \<notin> set (elements 4 \<lparr>size_h = 1, capacity = 1, data = [1, 0, 0, 0]\<rparr>)"
    by (simp only: e2 o2) simp
  show ?thesis
    using add_with_1 [of chk fresh] add_with_257 [of chk fresh] e1 e2 o1 o2 a1 a2 i1 i2
    by (intro conjI)
qed

subsection \<open>Insertion at a position\<close>

text \<open>
  Claim C2. For a container of \<open>n\<close> elements and a position \<open>p \<le> n\<close>,
  \<open>_set_insert_dst\<close> returns the slot at index \<open>p\<close> (byte offset \<open>p * type_size\<close>)
  and sets the size to \<open>n + 1\<close>; the elements from index \<open>p\<close> on have moved one
  slot to the right, so the \<open>n + 1\<close> slots read as the old sequence with the vacant
  slot at \<open>p\<close>. Once the caller has written the new element there, the container reads
  as the old sequence with the new element spliced in at index \<open>p\<close>.
\<close>

theorem insert_dst_splices:
  assumes inv: "set_inv ts h" and fits: "grow_fits ts h"
    and pos: "pos \<le> size_h h" and v: "length v = unat ts"
  shows "\<exists>h1 h2. set_insert_dst fresh h ts pos = Some (pos * ts, h1)
     \<and> unat (pos * ts) = unat pos * unat ts
     \<and> unat (size_h h1) = unat (size_h h) + 1
     \<and> elements ts h1 = take (unat pos) (elements ts h) @ [slot (unat ts) (data h1) (unat pos)]
          @ drop (unat pos) (elements ts h)
     \<and> write_slot h1 (pos * ts) v = Some h2
     \<and> size_h h2 = size_h h1 \<and> capacity h2 = capacity h1
     \<and> elements ts h2 = take (unat pos) (elements ts h) @ [v] @ drop (unat pos) (elements ts h)"
  using insert_then_write [OF assms, of fresh] by blast

theorem insert_dst_splices_witness:
  "set_inv 2 \<lparr>size_h = 2, capacity = 2, data = [1, 2, 3, 4]\<rparr>
   \<and> grow_fits 2 \<lparr>size_h = 2, capacity = 2, data = [1, 2, 3, 4]\<rparr>
   \<and> (\<exists>h1. set_insert_dst (\<lambda>_. 0) \<lparr>size_h = 2, capacity = 2, data = [1, 2, 3, 4]\<rparr> 2 1
              = Some (2, h1)
        \<and> unat (size_h h1) = 3
        \<and> elements 2 h1 = [[1, 2], slot 2 (data h1) (Suc 0), [3, 4]]
        \<and> (\<exists>h2. write_slot h1 2 [9, 9] = Some h2
               \<and> size_h h2 = size_h h1 \<and> capacity h2 = capacity h1
               \<and> elements 2 h2 = [[1, 2], [9, 9], [3, 4]]))"
proof -
  let ?h = "\<lparr>size_h = 2, capacity = 2, data = [1, 2, 3, 4 :: byte]\<rparr>"
  have i: "set_inv 2 ?h" by (simp add: set_inv_def)
  have g: "grow_fits 2 ?h" by (simp add: grow_fits_def request_fits_def)
  have p: "(1 :: 64 word) \<le> size_h ?h" by simp
  have v: "length [9, 9 :: byte] = unat (2 :: 64 word)" by simp
  have e: "elements 2 ?h = [[1, 2], [3, 4]]" by code_simp
  show ?thesis
    using insert_dst_splices [OF i g p v, of "\<lambda>_. 0"] i g by (simp add: e)
qed

subsection \<open>The growth policy\<close>

text \<open>
  Claim C3. Growth is triggered exactly when \<open>capacity - size == 0\<close>;
  \<open>set_realloc\<close> then makes the capacity \<open>max(1, capacity * 2)\<close> and keeps the size
  and the bytes of the existing elements. So from the empty container the growth steps
  give the capacities 1, 2, 4, 8, ...: after \<open>n + 1\<close> of them the capacity is \<open>2 ^ n\<close>.
\<close>

theorem growth_doubles:
  "(\<not> set_has_space h \<longleftrightarrow> capacity h - size_h h = 0)
   \<and> set_add_dst fresh h ts =
       do { h' \<leftarrow> (if capacity h - size_h h = 0 then set_realloc fresh h ts else Some h);
            Some (ts * size_h h', h'\<lparr>size_h := size_h h' + 1\<rparr>) }
   \<and> set_insert_dst fresh h ts pos =
       do { let new_length = size_h h + 1;
            h' \<leftarrow> (if capacity h - size_h h = 0 then set_realloc fresh h ts else Some h);
            d \<leftarrow> memmove (data h') (unat ((pos + 1) * ts)) (unat (pos * ts))
                   (unat ((size_h h' - pos) * ts));
            Some (pos * ts, h'\<lparr>data := d, size_h := new_length\<rparr>) }
   \<and> (set_inv ts h \<and> request_fits ts (max 1 (2 * unat (capacity h))) \<longrightarrow>
        (\<exists>h'. set_realloc fresh h ts = Some h'
           \<and> unat (capacity h') = max 1 (2 * unat (capacity h))
           \<and> size_h h' = size_h h
           \<and> length (data h') = unat (capacity h') * unat ts
           \<and> take (length (data h)) (data h') = data h
           \<and> elements ts h' = elements ts h))
   \<and> (request_fits ts (2 ^ n) \<longrightarrow>
        (\<exists>h'. set_realloc_times fresh ts (Suc n) set_create = Some h'
           \<and> unat (capacity h') = 2 ^ n))"
proof (intro conjI impI)
  show t: "(\<not> set_has_space h) = (capacity h - size_h h = 0)"
    by (simp add: has_space_iff)
  show "set_add_dst fresh h ts =
       do { h' \<leftarrow> (if capacity h - size_h h = 0 then set_realloc fresh h ts else Some h);
            Some (ts * size_h h', h'\<lparr>size_h := size_h h' + 1\<rparr>) }"
    by (simp only: set_add_dst_def t)
  show "set_insert_dst fresh h ts pos =
       do { let new_length = size_h h + 1;
            h' \<leftarrow> (if capacity h - size_h h = 0 then set_realloc fresh h ts else Some h);
            d \<leftarrow> memmove (data h') (unat ((pos + 1) * ts)) (unat (pos * ts))
                   (unat ((size_h h' - pos) * ts));
            Some (pos * ts, h'\<lparr>data := d, size_h := new_length\<rparr>) }"
    by (simp only: set_insert_dst_def t)
next
  assume a: "set_inv ts h \<and> request_fits ts (max 1 (2 * unat (capacity h)))"
  then obtain h' where h': "set_realloc fresh h ts = Some h'" "set_inv ts h'"
    "size_h h' = size_h h" "unat (capacity h') = max 1 (2 * unat (capacity h))"
    "take (length (data h)) (data h') = data h"
    using set_realloc_fits [of ts h fresh] by blast
  have "map (slot (unat ts) (data h')) [0..<unat (size_h h)] = elements ts h"
    using h'(5) size_bytes_le [of ts h] a by (intro elements_prefix) simp_all
  then have "elements ts h' = elements ts h" using h'(3) by (simp add: elements_def)
  moreover have "length (data h') = unat (capacity h') * unat ts"
    using h'(2) by (simp add: set_inv_def)
  ultimately show "\<exists>h'. set_realloc fresh h ts = Some h'
           \<and> unat (capacity h') = max 1 (2 * unat (capacity h))
           \<and> size_h h' = size_h h
           \<and> length (data h') = unat (capacity h') * unat ts
           \<and> take (length (data h)) (data h') = data h
           \<and> elements ts h' = elements ts h"
    using h' by blast
next
  assume "request_fits ts (2 ^ n)"
  then show "\<exists>h'. set_realloc_times fresh ts (Suc n) set_create = Some h'
           \<and> unat (capacity h') = 2 ^ n"
    by (rule realloc_times_create)
qed

theorem growth_doubles_witness:
  "set_inv 2 \<lparr>size_h = 1, capacity = 1, data = [1, 2]\<rparr>
   \<and> request_fits 2 (max 1 (2 * unat (capacity \<lparr>size_h = 1, capacity = 1, data = [1, 2]\<rparr>)))
   \<and> (\<exists>h'. set_realloc (\<lambda>_. 0) \<lparr>size_h = 1, capacity = 1, data = [1, 2]\<rparr> 2 = Some h'
         \<and> unat (capacity h') = 2 \<and> size_h h' = 1 \<and> length (data h') = 4
         \<and> elements 2 h' = [[1, 2]])
   \<and> request_fits 2 (2 ^ 3)
   \<and> (\<exists>h'. set_realloc_times (\<lambda>_. 0) 2 (Suc 3) set_create = Some h' \<and> unat (capacity h') = 8)"
proof -
  let ?h = "\<lparr>size_h = 1, capacity = 1, data = [1, 2 :: byte]\<rparr>"
  have i: "set_inv 2 ?h" by (simp add: set_inv_def)
  have f1: "request_fits 2 (max 1 (2 * unat (capacity ?h)))" by (simp add: request_fits_def)
  have f2: "request_fits 2 (2 ^ 3)" by (simp add: request_fits_def)
  have e: "elements 2 ?h = [[1, 2]]" by code_simp
  note G = growth_doubles [of ?h "\<lambda>_. 0" 2 0 3]
  from G i f1 obtain h1 where h1: "set_realloc (\<lambda>_. 0) ?h 2 = Some h1"
    "unat (capacity h1) = max 1 (2 * unat (capacity ?h))" "size_h h1 = size_h ?h"
    "length (data h1) = unat (capacity h1) * unat (2 :: 64 word)"
    "elements 2 h1 = elements 2 ?h"
    by blast
  from G f2 obtain h2 where h2: "set_realloc_times (\<lambda>_. 0) 2 (Suc 3) set_create = Some h2"
    "unat (capacity h2) = 2 ^ 3"
    by blast
  have "unat (capacity h1) = 2" using h1(2) by simp
  moreover from this have "length (data h1) = 4" using h1(4) by simp
  moreover have "size_h h1 = 1" using h1(3) by simp
  moreover have "elements 2 h1 = [[1, 2]]" using h1(5) e by simp
  moreover have "unat (capacity h2) = 8" using h2(2) by simp
  ultimately show ?thesis using i f1 f2 h1(1) h2(1) by blast
qed

subsection \<open>Copy\<close>

text \<open>
  Claim C4. \<open>_set_copy\<close> of a container makes a new block, at the address \<open>q\<close>
  that \<open>malloc\<close> returns, with the size of the source, a capacity equal to that size
  whatever the capacity of the source, and for storage the bytes of the source's first
  \<open>size\<close> elements. The two blocks are independent: no run of mutations of one of
  them (nor freeing it) changes the block of the other.
\<close>

theorem copy_tight_and_independent:
  assumes st: "H st = Some h" and inv: "set_inv ts h" and q: "H q = None"
  shows "\<exists>c H1. set_copy_at q H st ts = Some (H1, q) \<and> q \<noteq> st
     \<and> H1 st = Some h \<and> H1 q = Some c
     \<and> size_h c = size_h h \<and> capacity c = size_h h
     \<and> data c = take (unat (size_h h) * unat ts) (data h)
     \<and> elements ts c = elements ts h
     \<and> (\<forall>ms H2 st2. mutate_all ms H1 st = Some (H2, st2) \<longrightarrow> H2 q = Some c)
     \<and> (\<forall>ms H2 q2. mutate_all ms H1 q = Some (H2, q2) \<longrightarrow> H2 st = Some h)
     \<and> set_free H1 st q = Some c \<and> set_free H1 q st = Some h
     \<and> (\<forall>G a b hb ms G' a'. b \<noteq> a \<and> G b = Some hb \<and> mutate_all ms G a = Some (G', a')
            \<longrightarrow> G' b = Some hb \<and> b \<noteq> a')"
proof -
  define c where "c = \<lparr>size_h = size_h h, capacity = size_h h,
            data = take (unat (size_h h) * unat ts) (data h)\<rparr>"
  define H1 where "H1 = H(q \<mapsto> c)"
  have ne: "q \<noteq> st" using st q by auto
  have cp: "set_copy_at q H st ts = Some (H1, q)"
    using st q copy_shape(1) [OF inv] by (simp add: set_copy_at_def H1_def c_def)
  have a: "H1 st = Some h" and b: "H1 q = Some c"
    using st ne by (simp_all add: H1_def)
  have e: "elements ts c = elements ts h"
    unfolding c_def using inv by (rule copy_elements)
  have f1: "\<forall>ms H2 st2. mutate_all ms H1 st = Some (H2, st2) \<longrightarrow> H2 q = Some c"
    using mutate_all_frame [of _ H1 st _ _ q c] ne b by blast
  have f2: "\<forall>ms H2 q2. mutate_all ms H1 q = Some (H2, q2) \<longrightarrow> H2 st = Some h"
    using mutate_all_frame [of _ H1 q _ _ st h] ne a by blast
  have fr: "set_free H1 st q = Some c" "set_free H1 q st = Some h"
    using a b ne by (simp_all add: set_free_def)
  have "size_h c = size_h h" "capacity c = size_h h"
    "data c = take (unat (size_h h) * unat ts) (data h)"
    by (simp_all add: c_def)
  moreover have "\<forall>G a b hb ms G' a'. b \<noteq> a \<and> G b = Some hb \<and> mutate_all ms G a = Some (G', a')
            \<longrightarrow> G' b = Some hb \<and> b \<noteq> a'"
    using mutate_all_frame by blast
  ultimately show ?thesis using cp ne a b e f1 f2 fr by blast
qed

theorem copy_tight_and_independent_witness:
  "\<exists>c H1 H2 H3.
     set_copy_at 1 ((\<lambda>_. None)(0 \<mapsto> \<lparr>size_h = 1, capacity = 2, data = [1, 2, 3, 4]\<rparr>)) 0 2
       = Some (H1, 1)
     \<and> H1 0 = Some \<lparr>size_h = 1, capacity = 2, data = [1, 2, 3, 4]\<rparr>
     \<and> H1 1 = Some c \<and> size_h c = 1 \<and> capacity c = 1 \<and> data c = [1, 2]
     \<and> mutate_all [(\<lambda>_. 0, 0, Store 0 [9, 9]), (\<lambda>_. 0, 0, Pop)] H1 0 = Some (H2, 0)
     \<and> H2 1 = Some c
     \<and> mutate_all [(\<lambda>_. 0, 2, Add_dst 2)] H1 1 = Some (H3, 2)
     \<and> H3 0 = Some \<lparr>size_h = 1, capacity = 2, data = [1, 2, 3, 4]\<rparr>"
proof -
  let ?h = "\<lparr>size_h = 1, capacity = 2, data = [1, 2, 3, 4 :: byte]\<rparr>"
  let ?H = "(\<lambda>_ :: nat. None)(0 \<mapsto> ?h)"
  let ?c = "\<lparr>size_h = 1, capacity = 1, data = [1, 2 :: byte]\<rparr>"
  have st: "?H 0 = Some ?h" by simp
  have i: "set_inv 2 ?h" by (simp add: set_inv_def)
  have q: "?H 1 = None" by simp
  from copy_tight_and_independent [OF st i q]
  obtain c H1 where c: "set_copy_at 1 ?H 0 2 = Some (H1, 1)" "H1 0 = Some ?h" "H1 1 = Some c"
    "size_h c = size_h ?h" "capacity c = size_h ?h"
    "data c = take (unat (size_h ?h) * unat (2 :: 64 word)) (data ?h)"
    and f1: "\<forall>ms H2 st2. mutate_all ms H1 0 = Some (H2, st2) \<longrightarrow> H2 1 = Some c"
    and f2: "\<forall>ms H2 q2. mutate_all ms H1 1 = Some (H2, q2) \<longrightarrow> H2 0 = Some ?h"
    by (elim exE conjE) (rule that; assumption)
  have ceq: "c = ?c" using c(4,5,6) by (cases c) simp
  have H1: "H1 = ?H(1 \<mapsto> ?c)"
    using c(1) by (simp add: set_copy_at_def set_copy_def sizeof_set_header_def)
  have m1: "mutate_all [(\<lambda>_. 0, 0, Store 0 [9, 9]), (\<lambda>_. 0, 0, Pop)] H1 0
      = Some ((?H(1 \<mapsto> ?c))(0 \<mapsto> \<lparr>size_h = 0, capacity = 2, data = [9, 9, 3, 4]\<rparr>), 0)"
    by (simp add: H1 mutate_def write_slot_def set_pop_def)
  have m2: "mutate_all [(\<lambda>_. 0, 2, Add_dst 2)] H1 1
      = Some (((?H(1 \<mapsto> ?c))(1 := None))(2 \<mapsto> \<lparr>size_h = 2, capacity = 2, data = [1, 2, 0, 0]\<rparr>), 2)"
    by (simp add: H1 mutate_def set_add_dst_def set_has_space_def set_realloc_def
        realloc_bytes_def sizeof_set_header_def upt_conv_Cons)
  have r1: "((?H(1 \<mapsto> ?c))(0 \<mapsto> \<lparr>size_h = 0, capacity = 2, data = [9, 9, 3, 4]\<rparr>)) 1 = Some c"
    using f1 [rule_format, OF m1] .
  have r2: "(((?H(1 \<mapsto> ?c))(1 := None))(2 \<mapsto> \<lparr>size_h = 2, capacity = 2, data = [1, 2, 0, 0]\<rparr>)) 0 = Some ?h"
    using f2 [rule_format, OF m2] .
  have s: "size_h c = 1" "capacity c = 1" "data c = [1, 2]" using ceq by simp_all
  show ?thesis
    using c(1,2,3) s m1 m2 r1 r2 by blast
qed

subsection \<open>Erasing a range\<close>

text \<open>
  Claim C5. For a container of \<open>n\<close> elements and \<open>pos + len \<le> n\<close>, \<open>_set_erase\<close>
  moves the elements from index \<open>pos + len\<close> on left by \<open>len\<close> slots and lowers the size
  by \<open>len\<close>: the container reads as the old sequence without the indices
  \<open>pos .. pos + len - 1\<close>. The capacity (and the length of the storage) does not
  change. \<open>_set_remove\<close> at \<open>pos\<close> is \<open>_set_erase\<close> with length 1.
\<close>

theorem erase_removes_range:
  assumes inv: "set_inv ts h" and rng: "unat pos + unat len \<le> unat (size_h h)"
  shows "(\<exists>h'. set_erase h ts pos len = Some h'
           \<and> unat (size_h h') = unat (size_h h) - unat len
           \<and> capacity h' = capacity h
           \<and> length (data h') = length (data h)
           \<and> elements ts h' = take (unat pos) (elements ts h)
                @ drop (unat pos + unat len) (elements ts h))
         \<and> set_remove h ts pos = set_erase h ts pos 1"
proof -
  from erase_shape [OF inv rng]
  obtain r where r: "set_erase h ts pos len = Some (h\<lparr>data := take (unat pos * unat ts) (data h)
              @ take ((unat (size_h h) - unat pos - unat len) * unat ts)
                  (drop ((unat pos + unat len) * unat ts) (data h)) @ r,
            size_h := size_h h - len\<rparr>)"
    and l: "length (take (unat pos * unat ts) (data h)
              @ take ((unat (size_h h) - unat pos - unat len) * unat ts)
                  (drop ((unat pos + unat len) * unat ts) (data h)) @ r) = length (data h)"
    and s: "unat (size_h h - len) = unat (size_h h) - unat len"
    by blast
  have e: "elements ts (h\<lparr>data := take (unat pos * unat ts) (data h)
              @ take ((unat (size_h h) - unat pos - unat len) * unat ts)
                  (drop ((unat pos + unat len) * unat ts) (data h)) @ r,
            size_h := size_h h - len\<rparr>)
     = take (unat pos) (elements ts h) @ drop (unat pos + unat len) (elements ts h)"
    using slots_after_erase [OF rng size_bytes_le [OF inv], of r] s
    by (simp add: elements_def)
  show ?thesis using r l s e by (simp add: set_remove_def)
qed

theorem erase_removes_range_witness:
  "(\<exists>h'. set_erase \<lparr>size_h = 3, capacity = 4, data = [1, 2, 3, 4, 5, 6, 7, 8]\<rparr> 2 0 2 = Some h'
         \<and> unat (size_h h') = 1 \<and> capacity h' = 4 \<and> length (data h') = 8
         \<and> elements 2 h' = [[5, 6]])
   \<and> set_remove \<lparr>size_h = 3, capacity = 4, data = [1, 2, 3, 4, 5, 6, 7, 8]\<rparr> 2 0
       = set_erase \<lparr>size_h = 3, capacity = 4, data = [1, 2, 3, 4, 5, 6, 7, 8]\<rparr> 2 0 1"
proof -
  let ?h = "\<lparr>size_h = 3, capacity = 4, data = [1, 2, 3, 4, 5, 6, 7, 8 :: byte]\<rparr>"
  have i: "set_inv 2 ?h" by (simp add: set_inv_def)
  have r: "unat (0 :: 64 word) + unat (2 :: 64 word) \<le> unat (size_h ?h)" by simp
  have e: "elements 2 ?h = [[1, 2], [3, 4], [5, 6]]" by code_simp
  note C = erase_removes_range [OF i r, simplified e, simplified]
  show ?thesis using C by (simp add: eval_nat_numeral)
qed

subsection \<open>Reserve\<close>

text \<open>
  Claim C6, for requests \<open>size_t\<close> can express. \<open>_set_reserve\<close> with a requested
  capacity that the container already has is a no-op. With a larger one, whose block of
  \<open>16 + cap * type_size\<close> bytes does not wrap, it sets the capacity to exactly the
  requested value (the storage has that many slots) and leaves the size and the bytes of
  the existing elements as they were.
\<close>

theorem reserve_exact:
  "(cap \<le> capacity h \<longrightarrow> set_reserve fresh h ts cap = Some h)
   \<and> (capacity h < cap \<and> set_inv ts h \<and> request_fits ts (unat cap) \<longrightarrow>
        (\<exists>h'. set_reserve fresh h ts cap = Some h' \<and> capacity h' = cap \<and> size_h h' = size_h h
           \<and> length (data h') = unat cap * unat ts
           \<and> take (length (data h)) (data h') = data h
           \<and> elements ts h' = elements ts h))"
proof (intro conjI impI)
  assume "cap \<le> capacity h"
  then show "set_reserve fresh h ts cap = Some h" by (simp add: set_reserve_def)
next
  assume a: "capacity h < cap \<and> set_inv ts h \<and> request_fits ts (unat cap)"
  then obtain h' where h': "set_reserve fresh h ts cap = Some h'" "capacity h' = cap"
    "size_h h' = size_h h" "set_inv ts h'" "take (length (data h)) (data h') = data h"
    "elements ts h' = elements ts h"
    using reserve_grows [of h cap ts fresh] by blast
  from h'(2,4) have "length (data h') = unat cap * unat ts" by (simp add: set_inv_def)
  with h' show "\<exists>h'. set_reserve fresh h ts cap = Some h' \<and> capacity h' = cap \<and> size_h h' = size_h h
           \<and> length (data h') = unat cap * unat ts
           \<and> take (length (data h)) (data h') = data h
           \<and> elements ts h' = elements ts h" by blast
qed

theorem reserve_exact_witness:
  "set_reserve (\<lambda>_. 0) \<lparr>size_h = 1, capacity = 1, data = [1, 2]\<rparr> 2 1
     = Some \<lparr>size_h = 1, capacity = 1, data = [1, 2]\<rparr>
   \<and> (\<exists>h'. set_reserve (\<lambda>_. 0) \<lparr>size_h = 1, capacity = 1, data = [1, 2]\<rparr> 2 3 = Some h'
         \<and> capacity h' = 3 \<and> size_h h' = 1 \<and> length (data h') = 6
         \<and> take 2 (data h') = [1, 2] \<and> elements 2 h' = [[1, 2]])"
proof -
  let ?h = "\<lparr>size_h = 1, capacity = 1, data = [1, 2 :: byte]\<rparr>"
  have i: "set_inv 2 ?h" by (simp add: set_inv_def)
  have f: "request_fits 2 (unat (3 :: 64 word))" by (simp add: request_fits_def)
  have e: "elements 2 ?h = [[1, 2]]" by code_simp
  note A = reserve_exact [of 1 ?h "\<lambda>_. 0" 2, simplified]
  note B = reserve_exact [of 3 ?h "\<lambda>_. 0" 2, simplified i f e, simplified, THEN conjunct2]
  show ?thesis using A B by (simp add: eval_nat_numeral)
qed

text \<open>
  Without the bound the statement fails. For four-byte elements and the request
  \<open>2 ^ 62\<close> the byte count \<open>16 + 2 ^ 62 * 4\<close> wraps to 16: \<open>realloc\<close> is asked for the
  header alone, the capacity is recorded as \<open>2 ^ 62\<close>, and the element the container
  held is no longer in the block.
\<close>

theorem reserve_wraps_counterexample:
  "set_inv 4 \<lparr>size_h = 1, capacity = 1, data = [1, 0, 0, 0]\<rparr>
   \<and> (capacity \<lparr>size_h = 1, capacity = 1, data = [1, 0, 0, 0]\<rparr> :: 64 word) < 2 ^ 62
   \<and> \<not> request_fits 4 (unat (2 ^ 62 :: 64 word))
   \<and> set_reserve zero_bytes \<lparr>size_h = 1, capacity = 1, data = [1, 0, 0, 0]\<rparr> 4 (2 ^ 62)
       = Some \<lparr>size_h = 1, capacity = 2 ^ 62, data = []\<rparr>
   \<and> elements 4 \<lparr>size_h = 1, capacity = 1, data = [1, 0, 0, 0]\<rparr> = [[1, 0, 0, 0]]
   \<and> elements 4 \<lparr>size_h = 1, capacity = 2 ^ 62, data = []\<rparr> = [[]]
   \<and> elements 4 \<lparr>size_h = 1, capacity = 2 ^ 62, data = []\<rparr>
       \<noteq> elements 4 \<lparr>size_h = 1, capacity = 1, data = [1, 0, 0, 0]\<rparr>"
proof -
  have w: "(16 + 2 ^ 62 * 4 :: 64 word) = 16" by simp
  have lt: "(1 :: 64 word) < 2 ^ 62" by simp
  have r: "set_reserve zero_bytes \<lparr>size_h = 1, capacity = 1, data = [1, 0, 0, 0]\<rparr> 4 (2 ^ 62)
       = Some \<lparr>size_h = 1, capacity = 2 ^ 62, data = []\<rparr>"
    using lt by (simp add: set_reserve_def Let_def sizeof_set_header_def w realloc_bytes_def not_le)
  have e1: "elements 4 \<lparr>size_h = 1, capacity = 1, data = [1, 0, 0, 0]\<rparr> = [[1, 0, 0, 0]]"
    by (simp add: elements_def slot_def)
  have e2: "elements 4 \<lparr>size_h = 1, capacity = 2 ^ 62, data = []\<rparr> = [[]]"
    by (simp add: elements_def slot_def)
  have i: "set_inv 4 \<lparr>size_h = 1, capacity = 1, data = [1, 0, 0, 0]\<rparr>"
    by (simp add: set_inv_def)
  have f: "\<not> request_fits 4 (unat (2 ^ 62 :: 64 word))"
    by (simp add: request_fits_def)
  show ?thesis using lt r e1 e2 i f by simp
qed

subsection \<open>Runs of appends\<close>

text \<open>
  Claim C7. A run of \<open>n\<close> appends from the freshly created container returns the
  slots at indices \<open>0, 1, ..., n - 1\<close> in turn and ends with size \<open>n\<close>; reading the
  container then gives the appended values in the order of the appends. A single append
  on any container returns the slot at index \<open>size\<close>, raises the size by one and
  leaves the earlier elements as they were, whether or not the block was reallocated.
\<close>

theorem appends_in_order:
  "(request_fits ts (2 * length xs) \<and> (\<forall>x\<in>set xs. length (snd x) = unat ts) \<longrightarrow>
      (\<exists>h. append_all ts xs set_create = Some (map (\<lambda>i. ts * of_nat i) [0..<length xs], h)
         \<and> unat (size_h h) = length xs
         \<and> elements ts h = map snd xs))
   \<and> (set_inv ts h \<and> grow_fits ts h \<longrightarrow>
      (\<exists>h1. set_add_dst fresh h ts = Some (ts * size_h h, h1)
         \<and> unat (ts * size_h h) = unat (size_h h) * unat ts
         \<and> unat (size_h h1) = unat (size_h h) + 1
         \<and> take (unat (size_h h)) (elements ts h1) = elements ts h))"
proof (intro conjI impI)
  assume a: "request_fits ts (2 * length xs) \<and> (\<forall>x\<in>set xs. length (snd x) = unat ts)"
  have "request_fits ts (2 * (unat (size_h set_create) + length xs))"
    using a by (simp add: set_create_def)
  from append_all_from [OF set_inv_create this] a
  obtain h' where "append_all ts xs set_create
        = Some (map (\<lambda>i. ts * (size_h set_create + of_nat i)) [0..<length xs], h')"
    "unat (size_h h') = unat (size_h set_create) + length xs"
    "elements ts h' = elements ts set_create @ map snd xs"
    by blast
  then have "append_all ts xs set_create = Some (map (\<lambda>i. ts * of_nat i) [0..<length xs], h')
         \<and> unat (size_h h') = length xs \<and> elements ts h' = map snd xs"
    by (simp add: set_create_def elements_def)
  then show "\<exists>h. append_all ts xs set_create = Some (map (\<lambda>i. ts * of_nat i) [0..<length xs], h)
         \<and> unat (size_h h) = length xs \<and> elements ts h = map snd xs" ..
next
  assume a: "set_inv ts h \<and> grow_fits ts h"
  have "length (replicate (unat ts) (0 :: byte)) = unat ts" by simp
  from append_then_write [OF conjunct1 [OF a] conjunct2 [OF a] this, of fresh]
  obtain h1 where "set_add_dst fresh h ts = Some (ts * size_h h, h1)"
    "unat (ts * size_h h) = unat (size_h h) * unat ts"
    "unat (size_h h1) = unat (size_h h) + 1"
    "elements ts h1 = elements ts h @ [slot (unat ts) (data h1) (unat (size_h h))]"
    by blast
  moreover have "length (elements ts h) = unat (size_h h)" by (simp add: elements_def)
  ultimately show "\<exists>h1. set_add_dst fresh h ts = Some (ts * size_h h, h1)
         \<and> unat (ts * size_h h) = unat (size_h h) * unat ts
         \<and> unat (size_h h1) = unat (size_h h) + 1
         \<and> take (unat (size_h h)) (elements ts h1) = elements ts h"
    by simp
qed

theorem appends_in_order_witness:
  "request_fits 2 (2 * length [(\<lambda>_ :: nat. 0 :: byte, [1, 2 :: byte]), (\<lambda>_. 0, [3, 4]), (\<lambda>_. 5, [5, 6])])
   \<and> (\<exists>h. append_all 2 [(\<lambda>_. 0, [1, 2]), (\<lambda>_. 0, [3, 4]), (\<lambda>_. 5, [5, 6])] set_create
           = Some ([0, 2, 4], h)
         \<and> unat (size_h h) = 3
         \<and> elements 2 h = [[1, 2], [3, 4], [5, 6]])
   \<and> set_inv 2 \<lparr>size_h = 1, capacity = 1, data = [1, 2]\<rparr>
   \<and> grow_fits 2 \<lparr>size_h = 1, capacity = 1, data = [1, 2]\<rparr>
   \<and> (\<exists>h1. set_add_dst (\<lambda>_. 0) \<lparr>size_h = 1, capacity = 1, data = [1, 2]\<rparr> 2 = Some (2, h1)
         \<and> unat (size_h h1) = 2
         \<and> take 1 (elements 2 h1) = [[1, 2]])"
proof -
  let ?xs = "[(\<lambda>_ :: nat. 0 :: byte, [1, 2 :: byte]), (\<lambda>_. 0, [3, 4]), (\<lambda>_. 5, [5, 6])]"
  let ?h = "\<lparr>size_h = 1, capacity = 1, data = [1, 2 :: byte]\<rparr>"
  have f: "request_fits 2 (2 * length ?xs)" by (simp add: request_fits_def)
  have l: "\<forall>x\<in>set ?xs. length (snd x) = unat (2 :: 64 word)" by simp
  have i: "set_inv 2 ?h" by (simp add: set_inv_def)
  have g: "grow_fits 2 ?h" by (simp add: grow_fits_def request_fits_def)
  have e: "elements 2 ?h = [[1, 2]]" by code_simp
  have o: "map (\<lambda>i. 2 * of_nat i) [0..<length ?xs] = [0, 2, 4 :: 64 word]"
    by (simp add: upt_rec)
  note A = appends_in_order [of 2 ?xs ?h "\<lambda>_. 0"]
  from A [THEN conjunct1, THEN mp, OF conjI [OF f l]] obtain h where h: "append_all 2 ?xs set_create
      = Some (map (\<lambda>i. 2 * of_nat i) [0..<length ?xs], h)"
    "unat (size_h h) = length ?xs" "elements 2 h = map snd ?xs"
    by blast
  from A [THEN conjunct2, THEN mp, OF conjI [OF i g]]
  obtain h1 where h1: "set_add_dst (\<lambda>_. 0) ?h 2 = Some (2 * size_h ?h, h1)"
    "unat (size_h h1) = unat (size_h ?h) + 1"
    "take (unat (size_h ?h)) (elements 2 h1) = elements 2 ?h"
    by blast
  have "append_all 2 ?xs set_create = Some ([0, 2, 4], h)" using h(1) o by simp
  moreover have "unat (size_h h) = 3" using h(2) by simp
  moreover have "elements 2 h = [[1, 2], [3, 4], [5, 6]]" using h(3) by simp
  moreover have "set_add_dst (\<lambda>_. 0) ?h 2 = Some (2, h1)" using h1(1) by simp
  moreover have "unat (size_h h1) = 2" using h1(2) by simp
  moreover have "take 1 (elements 2 h1) = [[1, 2]]" using h1(3) e by simp
  ultimately show ?thesis using f i g by blast
qed

subsection \<open>Pop\<close>

text \<open>
  Claim C8. For a container with \<open>size > 0\<close>, \<open>set_pop\<close> lowers the size by exactly one
  and changes nothing else: the capacity and every byte of the storage, the vacated slot
  included, are as before.
\<close>

theorem pop_frame:
  "0 < size_h h \<Longrightarrow>
   unat (size_h (set_pop h)) + 1 = unat (size_h h)
   \<and> capacity (set_pop h) = capacity h \<and> data (set_pop h) = data h"
  by (simp add: set_pop_def unat_gt_0 unat_minus_one)

theorem pop_frame_witness:
  "unat (size_h (set_pop \<lparr>size_h = 2, capacity = 2, data = [1, 2, 3, 4]\<rparr>)) + 1 = 2
   \<and> capacity (set_pop \<lparr>size_h = 2, capacity = 2, data = [1, 2, 3, 4]\<rparr>) = 2
   \<and> data (set_pop \<lparr>size_h = 2, capacity = 2, data = [1, 2, 3, 4]\<rparr>) = [1, 2, 3, 4]"
  using pop_frame [of "\<lparr>size_h = 2, capacity = 2, data = [1, 2, 3, 4]\<rparr>"] by simp

subsection \<open>The invariant\<close>

text \<open>
  Claim C9. \<open>size \<le> capacity\<close> holds for the freshly created container (both are 0)
  and is kept by \<open>_set_add_dst\<close>, \<open>_set_insert_dst\<close>, \<open>_set_erase\<close>,
  \<open>_set_remove\<close>, \<open>set_pop\<close>, \<open>_set_reserve\<close> and \<open>_set_copy\<close> under the
  precondition of each; here together with the rest of \<open>set_inv\<close>, the storage having
  \<open>capacity * type_size\<close> bytes.
\<close>

theorem size_within_capacity:
  "(set_inv ts set_create \<and> size_h set_create = 0 \<and> capacity set_create = 0)
   \<and> (set_inv ts h \<longrightarrow> size_h h \<le> capacity h)
   \<and> (set_inv ts h \<and> grow_fits ts h \<longrightarrow>
        (\<exists>off h'. set_add_dst fresh h ts = Some (off, h') \<and> set_inv ts h'))
   \<and> (set_inv ts h \<and> grow_fits ts h \<and> pos \<le> size_h h \<longrightarrow>
        (\<exists>off h'. set_insert_dst fresh h ts pos = Some (off, h') \<and> set_inv ts h'))
   \<and> (set_inv ts h \<and> unat pos + unat len \<le> unat (size_h h) \<longrightarrow>
        (\<exists>h'. set_erase h ts pos len = Some h' \<and> set_inv ts h'))
   \<and> (set_inv ts h \<and> pos < size_h h \<longrightarrow>
        (\<exists>h'. set_remove h ts pos = Some h' \<and> set_inv ts h'))
   \<and> (set_inv ts h \<and> 0 < size_h h \<longrightarrow> set_inv ts (set_pop h))
   \<and> (set_inv ts h \<and> (capacity h < cap \<longrightarrow> request_fits ts (unat cap)) \<longrightarrow>
        (\<exists>h'. set_reserve fresh h ts cap = Some h' \<and> set_inv ts h'))
   \<and> (size_h h \<le> capacity h \<and> set_reserve fresh h ts cap = Some r \<longrightarrow>
        size_h r \<le> capacity r)
   \<and> (set_inv ts h \<longrightarrow> (\<exists>c. set_copy h ts = Some c \<and> set_inv ts c))"
proof -
  have v: "length (replicate (unat ts) (0 :: byte)) = unat ts" by simp
  have c1: "set_inv ts set_create \<and> size_h set_create = 0 \<and> capacity set_create = 0"
    by (simp add: set_inv_create) (simp add: set_create_def)
  have c2: "set_inv ts h \<longrightarrow> size_h h \<le> capacity h"
    by (simp add: set_inv_def)
  have c3: "set_inv ts h \<and> grow_fits ts h \<longrightarrow>
        (\<exists>off h'. set_add_dst fresh h ts = Some (off, h') \<and> set_inv ts h')"
    using append_then_write [OF _ _ v, of h fresh] by blast
  have c4: "set_inv ts h \<and> grow_fits ts h \<and> pos \<le> size_h h \<longrightarrow>
        (\<exists>off h'. set_insert_dst fresh h ts pos = Some (off, h') \<and> set_inv ts h')"
    using insert_then_write [OF _ _ _ v, of h pos fresh] by blast
  have c5: "set_inv ts h \<and> unat pos + unat len \<le> unat (size_h h) \<longrightarrow>
        (\<exists>h'. set_erase h ts pos len = Some h' \<and> set_inv ts h')"
    using erase_keeps_inv [of ts h pos len] by blast
  have c6: "set_inv ts h \<and> pos < size_h h \<longrightarrow>
        (\<exists>h'. set_remove h ts pos = Some h' \<and> set_inv ts h')"
  proof
    assume a: "set_inv ts h \<and> pos < size_h h"
    then have "unat pos + unat (1 :: 64 word) \<le> unat (size_h h)"
      by (simp add: word_less_nat_alt)
    then show "\<exists>h'. set_remove h ts pos = Some h' \<and> set_inv ts h'"
      using a erase_keeps_inv [of ts h pos 1] by (simp add: set_remove_def)
  qed
  have c7: "set_inv ts h \<and> 0 < size_h h \<longrightarrow> set_inv ts (set_pop h)"
    using pop_keeps_inv [of ts h] by blast
  have c8: "set_inv ts h \<and> (capacity h < cap \<longrightarrow> request_fits ts (unat cap)) \<longrightarrow>
        (\<exists>h'. set_reserve fresh h ts cap = Some h' \<and> set_inv ts h')"
    using reserve_keeps_inv [of ts h cap fresh] by blast
  have c9: "set_inv ts h \<longrightarrow> (\<exists>c. set_copy h ts = Some c \<and> set_inv ts c)"
    using copy_shape [of ts h] by blast
  have c10: "size_h h \<le> capacity h \<and> set_reserve fresh h ts cap = Some r \<longrightarrow>
        size_h r \<le> capacity r"
    by (auto simp: set_reserve_def Let_def split: if_splits)
  show ?thesis using c1 c2 c3 c4 c5 c6 c7 c8 c9 c10 by blast
qed

theorem size_within_capacity_witness:
  "set_inv 2 \<lparr>size_h = 1, capacity = 1, data = [1, 2]\<rparr>
   \<and> grow_fits 2 \<lparr>size_h = 1, capacity = 1, data = [1, 2]\<rparr>
   \<and> size_h \<lparr>size_h = 1, capacity = 1, data = [1, 2 :: byte]\<rparr>
        \<le> capacity \<lparr>size_h = 1, capacity = 1, data = [1, 2 :: byte]\<rparr>
   \<and> (\<exists>off h'. set_add_dst (\<lambda>_. 0) \<lparr>size_h = 1, capacity = 1, data = [1, 2]\<rparr> 2 = Some (off, h')
         \<and> set_inv 2 h')
   \<and> (\<exists>off h'. set_insert_dst (\<lambda>_. 0) \<lparr>size_h = 1, capacity = 1, data = [1, 2]\<rparr> 2 0
           = Some (off, h') \<and> set_inv 2 h')
   \<and> (\<exists>h'. set_erase \<lparr>size_h = 1, capacity = 1, data = [1, 2]\<rparr> 2 0 1 = Some h' \<and> set_inv 2 h')
   \<and> (\<exists>h'. set_remove \<lparr>size_h = 1, capacity = 1, data = [1, 2]\<rparr> 2 0 = Some h' \<and> set_inv 2 h')
   \<and> set_inv 2 (set_pop \<lparr>size_h = 1, capacity = 1, data = [1, 2]\<rparr>)
   \<and> (\<exists>h'. set_reserve (\<lambda>_. 0) \<lparr>size_h = 1, capacity = 1, data = [1, 2]\<rparr> 2 3 = Some h'
         \<and> set_inv 2 h')
   \<and> set_reserve (\<lambda>_. 0) \<lparr>size_h = 1, capacity = 1, data = [1, 2]\<rparr> 2 3
        = Some \<lparr>size_h = 1, capacity = 3, data = [1, 2, 0, 0, 0, 0]\<rparr>
   \<and> size_h \<lparr>size_h = 1, capacity = 3, data = [1, 2, 0, 0, 0, 0 :: byte]\<rparr>
        \<le> capacity \<lparr>size_h = 1, capacity = 3, data = [1, 2, 0, 0, 0, 0 :: byte]\<rparr>
   \<and> (\<exists>c. set_copy \<lparr>size_h = 1, capacity = 1, data = [1, 2]\<rparr> 2 = Some c \<and> set_inv 2 c)"
proof -
  let ?h = "\<lparr>size_h = 1, capacity = 1, data = [1, 2 :: byte]\<rparr>"
  have i: "set_inv 2 ?h" by (simp add: set_inv_def)
  have g: "grow_fits 2 ?h" by (simp add: grow_fits_def request_fits_def)
  have p: "(0 :: 64 word) \<le> size_h ?h" by simp
  have r: "unat (0 :: 64 word) + unat (1 :: 64 word) \<le> unat (size_h ?h)" by simp
  have q: "(0 :: 64 word) < size_h ?h" by simp
  have f: "capacity ?h < 3 \<longrightarrow> request_fits 2 (unat (3 :: 64 word))"
    by (simp add: request_fits_def)
  have l: "size_h ?h \<le> capacity ?h" by simp
  have s: "set_reserve (\<lambda>_. 0) ?h 2 3
      = Some \<lparr>size_h = 1, capacity = 3, data = [1, 2, 0, 0, 0, 0]\<rparr>"
    by (simp add: set_reserve_def sizeof_set_header_def realloc_bytes_def upt_conv_Cons not_le)
  note A = size_within_capacity
    [of 2 ?h "\<lambda>_ :: nat. 0" 0 1 3 "\<lparr>size_h = 1, capacity = 3, data = [1, 2, 0, 0, 0, 0]\<rparr>"]
  show ?thesis using A i g p r q f l s by blast
qed

subsection \<open>Insertion at the end\<close>

text \<open>
  Claim C1 says that \<open>set_add\<close> scans all current elements for byte-equality with
  the candidate, leaves the container unchanged when an equal element is found, and
  appends the value otherwise. The macro hands the check \<open>(unsigned char)value\<close> and
  nothing else of the candidate. So on the container of four-byte elements that holds 1,
  whatever function \<open>chk\<close> does the check, adding 1 and adding 257 get the same
  answer: either 257, which is not an element, is not appended, or 1, which is one, is
  appended again. With the check of set.c, which visits the first \<open>size\<close> bytes of the
  storage, adding 2 to the container holding 1 and 2 appends a second 2 (bytes 0 and 1
  of the storage are 1 and 0), and adding 257 to the container holding 1 changes nothing.
\<close>

theorem insert_at_size_is_append:
  assumes inv: "set_inv ts h" and fits: "grow_fits ts h"
  shows "set_insert_dst fresh h ts (size_h h) = set_add_dst fresh h ts
     \<and> (\<exists>h1. set_add_dst fresh h ts = Some (ts * size_h h, h1)
          \<and> unat (ts * size_h h) = unat (size_h h) * unat ts
          \<and> unat (size_h h1) = unat (size_h h) + 1)"
proof -
  have "length (replicate (unat ts) (0 :: byte)) = unat ts" by simp
  from append_then_write [OF inv fits this, of fresh]
  have "\<exists>h1. set_add_dst fresh h ts = Some (ts * size_h h, h1)
          \<and> unat (ts * size_h h) = unat (size_h h) * unat ts
          \<and> unat (size_h h1) = unat (size_h h) + 1"
    by blast
  then show ?thesis using insert_at_end [OF inv fits, of fresh] by simp
qed

theorem insert_at_size_is_append_witness:
  "set_inv 2 \<lparr>size_h = 1, capacity = 1, data = [1, 2]\<rparr>
   \<and> grow_fits 2 \<lparr>size_h = 1, capacity = 1, data = [1, 2]\<rparr>
   \<and> set_insert_dst (\<lambda>_. 0) \<lparr>size_h = 1, capacity = 1, data = [1, 2]\<rparr> 2 1
       = set_add_dst (\<lambda>_. 0) \<lparr>size_h = 1, capacity = 1, data = [1, 2]\<rparr> 2
   \<and> (\<exists>h1. set_add_dst (\<lambda>_. 0) \<lparr>size_h = 1, capacity = 1, data = [1, 2]\<rparr> 2 = Some (2, h1)
         \<and> unat (size_h h1) = 2)"
proof -
  let ?h = "\<lparr>size_h = 1, capacity = 1, data = [1, 2 :: byte]\<rparr>"
  have i: "set_inv 2 ?h" by (simp add: set_inv_def)
  have g: "grow_fits 2 ?h" by (simp add: grow_fits_def request_fits_def)
  note A = insert_at_size_is_append [OF i g, of "\<lambda>_. 0"]
  from A have "set_insert_dst (\<lambda>_. 0) ?h 2 1 = set_add_dst (\<lambda>_. 0) ?h 2" by simp
  moreover from A obtain h1 where h1: "set_add_dst (\<lambda>_. 0) ?h 2 = Some (2 * size_h ?h, h1)"
    "unat (size_h h1) = unat (size_h ?h) + 1"
    by blast
  moreover have "set_add_dst (\<lambda>_. 0) ?h 2 = Some (2, h1)" using h1(1) by simp
  moreover have "unat (size_h h1) = 2" using h1(2) by simp
  ultimately show ?thesis using i g by blast
qed

end
